theory Spec2Isabelle
  imports Main "HOL-Library.Sublist" "HOL-Library.AList" "HOL-Library.Char_ord"
    "HOL-Library.List_Lexorder" "HOL-Library.Word"
begin

unbundle bit_operations_syntax

section \<open>Strings\<close>

text \<open>
  Go strings are byte sequences; they are modelled as \<^typ>\<open>string\<close> (a list of 8-bit
  characters). \<open>replaceAll\<close> is \<^verbatim>\<open>strings.ReplaceAll\<close>: it scans from the left
  and replaces every non-overlapping occurrence of \<open>old\<close>. The wrapper only ever calls
  it with a non-empty pattern; for the empty pattern (where Go inserts \<open>new\<close> at every
  rune boundary) the byte-level insertion is written out.
\<close>

fun replaceFrom :: "string \<Rightarrow> string \<Rightarrow> string \<Rightarrow> string" where
  "replaceFrom old new [] = []"
| "replaceFrom old new (c # cs) =
     (if prefix old (c # cs)
      then new @ replaceFrom old new (drop (length old - 1) cs)
      else c # replaceFrom old new cs)"

definition replaceAll :: "string \<Rightarrow> string \<Rightarrow> string \<Rightarrow> string" where
  "replaceAll s old new =
     (if old = [] then new @ concat (map (\<lambda>c. c # new) s) else replaceFrom old new s)"

subsection \<open>Path Sanitizer\<close>

definition sanitizeBranchName :: "string \<Rightarrow> string" where
  "sanitizeBranchName branch =
     (let branch = replaceAll branch ''%'' ''%25'';
          branch = replaceAll branch ''/'' ''%2F''
      in branch)"

definition unsanitizeBranchName :: "string \<Rightarrow> string" where
  "unsanitizeBranchName name =
     (let name = replaceAll name ''%2F'' ''/'';
          name = replaceAll name ''%25'' ''%''
      in name)"

subsection \<open>String helpers of the standard library\<close>

text \<open>
  \<open>trimSpace\<close> is \<^verbatim>\<open>strings.TrimSpace\<close>: it removes leading and trailing white
  space as \<^verbatim>\<open>unicode.IsSpace\<close> defines it. On UTF-8 bytes these are the six ASCII
  characters tab, LF, VT, FF, CR, space and the encodings of U+0085, U+00A0, U+1680,
  U+2000..U+200A, U+2028, U+2029, U+202F, U+205F and U+3000.
\<close>

definition spaceSeqs :: "string list" where
  "spaceSeqs =
     [[CHR 0x09], [CHR 0x0A], [CHR 0x0B], [CHR 0x0C], [CHR 0x0D], [CHR 0x20],
      [CHR 0xC2, CHR 0x85], [CHR 0xC2, CHR 0xA0], [CHR 0xE1, CHR 0x9A, CHR 0x80],
      [CHR 0xE2, CHR 0x80, CHR 0x80], [CHR 0xE2, CHR 0x80, CHR 0x81],
      [CHR 0xE2, CHR 0x80, CHR 0x82], [CHR 0xE2, CHR 0x80, CHR 0x83],
      [CHR 0xE2, CHR 0x80, CHR 0x84], [CHR 0xE2, CHR 0x80, CHR 0x85],
      [CHR 0xE2, CHR 0x80, CHR 0x86], [CHR 0xE2, CHR 0x80, CHR 0x87],
      [CHR 0xE2, CHR 0x80, CHR 0x88], [CHR 0xE2, CHR 0x80, CHR 0x89],
      [CHR 0xE2, CHR 0x80, CHR 0x8A], [CHR 0xE2, CHR 0x80, CHR 0xA8],
      [CHR 0xE2, CHR 0x80, CHR 0xA9], [CHR 0xE2, CHR 0x80, CHR 0xAF],
      [CHR 0xE2, CHR 0x81, CHR 0x9F], [CHR 0xE3, CHR 0x80, CHR 0x80]]"

text \<open>The number of bytes of the white-space rune that \<open>s\<close> starts with (0 if none).\<close>

definition leadingRune :: "string list \<Rightarrow> string \<Rightarrow> nat" where
  "leadingRune ws s =
     (case find (\<lambda>w. w \<noteq> [] \<and> prefix w s) ws of None \<Rightarrow> 0 | Some w \<Rightarrow> length w)"

function stripRunes :: "string list \<Rightarrow> string \<Rightarrow> string" where
  "stripRunes ws s =
     (if leadingRune ws s = 0 then s else stripRunes ws (drop (leadingRune ws s) s))"
  by pat_completeness auto
termination
proof (relation "measure (\<lambda>(ws, s). length s)")
  show "wf (measure (\<lambda>(ws, s). length s))" by simp
next
  fix ws :: "string list" and s :: string
  assume n: "leadingRune ws s \<noteq> 0"
  then obtain w where "find (\<lambda>w. w \<noteq> [] \<and> prefix w s) ws = Some w"
    by (auto simp: leadingRune_def split: option.splits)
  then have "w \<noteq> []" "prefix w s"
    by (auto simp: find_Some_iff)
  then have "s \<noteq> []" by auto
  with n show "((ws, drop (leadingRune ws s) s), (ws, s)) \<in> measure (\<lambda>(ws, s). length s)"
    by simp
qed

definition trimSpace :: "string \<Rightarrow> string" where
  "trimSpace s = rev (stripRunes (map rev spaceSeqs) (rev (stripRunes spaceSeqs s)))"

definition hasPrefix :: "string \<Rightarrow> string \<Rightarrow> bool" where
  "hasPrefix s pre = prefix pre s"

definition containsAny :: "string \<Rightarrow> string \<Rightarrow> bool" where
  "containsAny s chars = list_ex (\<lambda>c. c \<in> set chars) s"

definition trimSuffix :: "string \<Rightarrow> string \<Rightarrow> string" where
  "trimSuffix s suf = (if suffix suf s then take (length s - length suf) s else s)"

fun splitOn :: "char \<Rightarrow> string \<Rightarrow> string list" where
  "splitOn d [] = [[]]"
| "splitOn d (c # cs) =
     (if c = d then [] # splitOn d cs
      else (case splitOn d cs of [] \<Rightarrow> [[c]] | l # ls \<Rightarrow> (c # l) # ls))"

text \<open>
  \<^verbatim>\<open>bufio.Scanner\<close> with the default \<^verbatim>\<open>ScanLines\<close>: the tokens are the lines
  without their end-of-line marker (a final line needs no newline, an empty final piece
  is no token). A line of \<^verbatim>\<open>bufio.MaxScanTokenSize\<close> bytes or more stops the scan
  with \<^verbatim>\<open>ErrTooLong\<close>; the tokens before it have been delivered.
\<close>

definition maxScanTokenSize :: int where
  "maxScanTokenSize = 65536"

definition dropCR :: "string \<Rightarrow> string" where
  "dropCR l = (if l \<noteq> [] \<and> last l = CHR 0x0D then butlast l else l)"

definition rawLines :: "string \<Rightarrow> string list" where
  "rawLines content =
     (let ps = splitOn (CHR 0x0A) content in if last ps = [] then butlast ps else ps)"

definition scanLines :: "string \<Rightarrow> string list \<times> bool" where
  "scanLines content =
     (let raw = rawLines content;
          ok = takeWhile (\<lambda>l. int (length l) < maxScanTokenSize) raw
      in (map dropCR ok, length ok < length raw))"

text \<open>
  \<^verbatim>\<open>strconv.ParseInt(s, 10, 64)\<close>: an optional sign and at least one decimal digit,
  nothing else; a value outside the 64-bit range is an error as well.
  \<^verbatim>\<open>strconv.FormatInt(i, 10)\<close> is the decimal numeral.
\<close>

definition isDigit :: "char \<Rightarrow> bool" where
  "isDigit c = (48 \<le> (of_char c :: int) \<and> (of_char c :: int) \<le> 57)"

definition parseUint :: "string \<Rightarrow> int option" where
  "parseUint ds =
     (if ds = [] \<or> \<not> list_all isDigit ds then None
      else Some (foldl (\<lambda>acc c. 10 * acc + (of_char c - 48)) 0 ds))"

definition parseInt :: "string \<Rightarrow> int option" where
  "parseInt s =
     (case s of
        [] \<Rightarrow> None
      | c # cs \<Rightarrow>
          (let neg = (c = CHR ''-'');
               ds = (if c = CHR ''+'' \<or> c = CHR ''-'' then cs else s)
           in case parseUint ds of
                None \<Rightarrow> None
              | Some n \<Rightarrow>
                  if neg then (if n \<le> 2 ^ 63 then Some (- n) else None)
                  else (if n < 2 ^ 63 then Some n else None)))"

function digitsOf :: "int \<Rightarrow> string" where
  "digitsOf n =
     (if n < 10 then [char_of (48 + n)] else digitsOf (n div 10) @ [char_of (48 + n mod 10)])"
  by pat_completeness auto
termination
  by (relation "measure nat") auto

definition formatInt :: "int \<Rightarrow> string" where
  "formatInt i = (if i < 0 then CHR ''-'' # digitsOf (- i) else digitsOf i)"

section \<open>The file system\<close>

text \<open>
  A file tree is a regular file (permission bits and content) or a directory
  (permission bits and named entries). Two trees make up the state: the working tree
  rooted at \<^verbatim>\<open>cfg.RepoRoot\<close> and the storage tree rooted at \<^verbatim>\<open>cfg.StoreBase\<close>;
  a path is the list of names below the root of its tree, and a tree that is \<open>None\<close>
  does not exist on disk. The model covers the installations where neither of the two
  directories lies inside the other. Symbolic links, special files and permission
  checks are not modelled; a directory above the two roots can always be created.
\<close>

type_synonym mode = "32 word"
type_synonym path = "string list"

datatype node = File mode string | Dir mode "(string \<times> node) list"

datatype error = ENOENT | ENOTDIR | EISDIR | ENOTEMPTY | ErrTooLong | GitFailed | Unmodelled

record world =
  work :: "node option"
  store :: "node option"
  umask :: mode

text \<open>The permission bits a new file or directory gets: the process umask is cleared.\<close>

definition masked :: "mode \<Rightarrow> mode \<Rightarrow> mode" where
  "masked um perm = perm AND NOT um"

text \<open>
  \<^verbatim>\<open>os.Stat\<close>: the node at a path, or why there is none (\<open>ENOENT\<close> is the error
  \<^verbatim>\<open>os.IsNotExist\<close> recognises).
\<close>

fun stat :: "node option \<Rightarrow> path \<Rightarrow> error + node" where
  "stat None p = Inl ENOENT"
| "stat (Some n) [] = Inr n"
| "stat (Some (File m c)) (x # p) = Inl ENOTDIR"
| "stat (Some (Dir m es)) (x # p) = stat (map_of es x) p"

definition exists :: "node option \<Rightarrow> path \<Rightarrow> bool" where
  "exists t p = (case stat t p of Inl e \<Rightarrow> False | Inr n \<Rightarrow> True)"

text \<open>\<^verbatim>\<open>os.MkdirAll\<close>: every missing directory of the path is created with \<open>m\<close>.\<close>

fun mkdirAll :: "mode \<Rightarrow> path \<Rightarrow> node option \<Rightarrow> error + node" where
  "mkdirAll m p (Some (File fm c)) = Inl ENOTDIR"
| "mkdirAll m [] None = Inr (Dir m [])"
| "mkdirAll m [] (Some (Dir dm es)) = Inr (Dir dm es)"
| "mkdirAll m (x # p) None =
     (case mkdirAll m p None of Inl e \<Rightarrow> Inl e | Inr c \<Rightarrow> Inr (Dir m [(x, c)]))"
| "mkdirAll m (x # p) (Some (Dir dm es)) =
     (case mkdirAll m p (map_of es x) of
        Inl e \<Rightarrow> Inl e
      | Inr c \<Rightarrow> Inr (Dir dm (AList.update x c es)))"

text \<open>
  The system calls that change one path are instances of \<open>alterAt\<close>: it walks to the
  path through existing directories and replaces what is there (\<open>None\<close>: nothing) by
  what \<open>f\<close> returns (\<open>None\<close>: the entry is removed).
\<close>

fun alterAt ::
  "path \<Rightarrow> (node option \<Rightarrow> error + node option) \<Rightarrow> node option \<Rightarrow> error + node option"
where
  "alterAt [] f t = f t"
| "alterAt (x # p) f None = Inl ENOENT"
| "alterAt (x # p) f (Some (File m c)) = Inl ENOTDIR"
| "alterAt (x # p) f (Some (Dir m es)) =
     (case alterAt p f (map_of es x) of
        Inl e \<Rightarrow> Inl e
      | Inr None \<Rightarrow> Inr (Some (Dir m (AList.delete x es)))
      | Inr (Some c) \<Rightarrow> Inr (Some (Dir m (AList.update x c es))))"

text \<open>\<^verbatim>\<open>os.RemoveAll\<close>: a path that does not exist is not an error.\<close>

definition osRemoveAll :: "path \<Rightarrow> node option \<Rightarrow> error + node option" where
  "osRemoveAll p t =
     (case stat t p of
        Inl e \<Rightarrow> (if e = ENOENT then Inr t else Inl e)
      | Inr n \<Rightarrow> alterAt p (\<lambda>d. Inr None) t)"

text \<open>\<^verbatim>\<open>os.Remove\<close>: a file or an empty directory.\<close>

definition osRemove :: "path \<Rightarrow> node option \<Rightarrow> error + node option" where
  "osRemove p t =
     alterAt p (\<lambda>d. case d of
                      None \<Rightarrow> Inl ENOENT
                    | Some (File m c) \<Rightarrow> Inr None
                    | Some (Dir m es) \<Rightarrow> (if es = [] then Inr None else Inl ENOTEMPTY)) t"

definition readFile :: "path \<Rightarrow> node option \<Rightarrow> error + string" where
  "readFile p t =
     (case stat t p of
        Inl e \<Rightarrow> Inl e
      | Inr (File m c) \<Rightarrow> Inr c
      | Inr (Dir m es) \<Rightarrow> Inl EISDIR)"

text \<open>
  \<^verbatim>\<open>os.WriteFile\<close> truncates an existing file and keeps its permission bits; a new
  file gets \<open>perm\<close>. \<open>appendFile\<close> is \<^verbatim>\<open>os.OpenFile\<close> with
  \<^verbatim>\<open>O_APPEND|O_CREATE|O_WRONLY\<close> followed by one write.
\<close>

definition writeFile :: "path \<Rightarrow> string \<Rightarrow> mode \<Rightarrow> node option \<Rightarrow> error + node option" where
  "writeFile p data perm t =
     alterAt p (\<lambda>d. case d of
                      None \<Rightarrow> Inr (Some (File perm data))
                    | Some (File m c) \<Rightarrow> Inr (Some (File m data))
                    | Some (Dir m es) \<Rightarrow> Inl EISDIR) t"

definition appendFile :: "path \<Rightarrow> string \<Rightarrow> mode \<Rightarrow> node option \<Rightarrow> error + node option" where
  "appendFile p data perm t =
     alterAt p (\<lambda>d. case d of
                      None \<Rightarrow> Inr (Some (File perm data))
                    | Some (File m c) \<Rightarrow> Inr (Some (File m (c @ data)))
                    | Some (Dir m es) \<Rightarrow> Inl EISDIR) t"

text \<open>
  The entries of a directory are read through \<open>map_of\<close>: of two entries with one name
  only the first counts. \<^verbatim>\<open>os.ReadDir\<close> returns the entries sorted by name.
\<close>

definition readDir :: "(string \<times> node) list \<Rightarrow> (string \<times> node) list" where
  "readDir es = sort_key fst (AList.clearjunk es)"

lemma readDir_entry: "(n, c) \<in> set (readDir es) \<longleftrightarrow> map_of es n = Some c"
  using graph_map_of [of es] by (auto simp: readDir_def Map.graph_def)

lemma readDir_distinct: "distinct (map fst (readDir es))"
proof -
  have "distinct (map fst (AList.clearjunk es))" by simp
  then have "distinct (AList.clearjunk es) \<and> inj_on fst (set (AList.clearjunk es))"
    by (simp add: distinct_map)
  then show ?thesis by (simp add: readDir_def distinct_map)
qed

fun isDir :: "node \<Rightarrow> bool" where
  "isDir (Dir m es) = True"
| "isDir (File m c) = False"

subsection \<open>Tree Copier\<close>

text \<open>
  \<open>eachEntry\<close> is the loop of \<^verbatim>\<open>copyDir\<close> over the entries of the source directory:
  \<open>ds\<close> are the entries of the destination directory, and every entry is copied onto
  what the destination has under the same name.
\<close>

fun eachEntry ::
  "(node \<Rightarrow> node option \<Rightarrow> error + node) \<Rightarrow> (string \<times> node) list \<Rightarrow> (string \<times> node) list
   \<Rightarrow> error + (string \<times> node) list"
where
  "eachEntry f [] ds = Inr ds"
| "eachEntry f ((n, c) # es) ds =
     (case f c (map_of ds n) of
        Inl e \<Rightarrow> Inl e
      | Inr c' \<Rightarrow> eachEntry f es (AList.update n c' ds))"

lemma eachEntry_ext:
  "(\<And>n c d. (n, c) \<in> set es \<Longrightarrow> f c d = g c d) \<Longrightarrow> eachEntry f es ds = eachEntry g es ds"
proof (induction es arbitrary: ds)
  case Nil
  show ?case by simp
next
  case (Cons a es)
  obtain n c where a: "a = (n, c)" by (cases a)
  have head: "f c d = g c d" for d
    using Cons.prems [of n c d] by (simp add: a)
  have tail: "eachEntry f es xs = eachEntry g es xs" for xs
    using Cons.prems by (intro Cons.IH) auto
  show ?case
    by (simp add: a head tail split: sum.splits)
qed

lemma eachEntry_cong [fundef_cong]:
  "es = es' \<Longrightarrow> ds = ds' \<Longrightarrow> (\<And>n c d. (n, c) \<in> set es' \<Longrightarrow> f c d = g c d)
   \<Longrightarrow> eachEntry f es ds = eachEntry g es' ds'"
  using eachEntry_ext [of es' f g ds'] by simp

lemma entry_size: "(n, c) \<in> set es \<Longrightarrow> size c < Suc (size_list (size_prod (\<lambda>x. 0) size) es)"
  by (induction es) auto

text \<open>
  \<open>copyTo um src dst\<close> is what \<^verbatim>\<open>copyFile\<close> (for a file) and \<^verbatim>\<open>copyDir\<close> (for a
  directory) leave at the destination path when its parent exists and \<open>dst\<close> is what
  the path held before. \<^verbatim>\<open>os.Create\<close> refuses a directory, and the copy ends with
  the source's content and permission bits (\<open>createFrom\<close>); \<^verbatim>\<open>os.MkdirAll\<close> refuses
  a file, keeps an existing directory as it is and creates a missing one with the
  source's bits less the umask.
\<close>

definition createFrom :: "mode \<Rightarrow> string \<Rightarrow> node option \<Rightarrow> error + node" where
  "createFrom m c dst =
     (case dst of
        Some (Dir dm ds) \<Rightarrow> Inl EISDIR
      | _ \<Rightarrow> Inr (File m c))"

function copyTo :: "mode \<Rightarrow> node \<Rightarrow> node option \<Rightarrow> error + node" where
  "copyTo um (File m c) dst = createFrom m c dst"
| "copyTo um (Dir m es) dst =
     (case dst of
        Some (File fm c) \<Rightarrow> Inl ENOTDIR
      | Some (Dir dm ds) \<Rightarrow>
          (case eachEntry (copyTo um) (readDir es) ds of
             Inl e \<Rightarrow> Inl e
           | Inr ds' \<Rightarrow> Inr (Dir dm ds'))
      | None \<Rightarrow>
          (case eachEntry (copyTo um) (readDir es) [] of
             Inl e \<Rightarrow> Inl e
           | Inr ds' \<Rightarrow> Inr (Dir (masked um m) ds')))"
  by pat_completeness auto
termination
  by (relation "measure (\<lambda>(um, src, dst). size src)")
    (auto simp: readDir_entry dest!: map_of_SomeD entry_size)

text \<open>
  \<^verbatim>\<open>copyPath\<close>, \<^verbatim>\<open>copyFile\<close> and \<^verbatim>\<open>copyDir\<close> on paths: the source is a path of
  the tree \<open>s\<close>, the destination a path of the tree \<open>t\<close>. \<^verbatim>\<open>copyFile\<close> needs the
  parent of the destination; \<^verbatim>\<open>copyDir\<close> starts with \<^verbatim>\<open>os.MkdirAll\<close>, which
  creates it.
\<close>

definition copyFile :: "node \<Rightarrow> path \<Rightarrow> node option \<Rightarrow> error + node option" where
  "copyFile src dst t =
     (case src of
        Dir m es \<Rightarrow> Inl EISDIR
      | File m c \<Rightarrow>
          alterAt dst
            (\<lambda>d. case createFrom m c d of Inl e \<Rightarrow> Inl e | Inr n \<Rightarrow> Inr (Some n)) t)"

definition copyDir :: "mode \<Rightarrow> node \<Rightarrow> path \<Rightarrow> node option \<Rightarrow> error + node option" where
  "copyDir um src dst t =
     (case src of
        File m c \<Rightarrow> Inl ENOTDIR
      | Dir m es \<Rightarrow>
          (case mkdirAll (masked um m) dst t of
             Inl e \<Rightarrow> Inl e
           | Inr t' \<Rightarrow>
               alterAt dst
                 (\<lambda>d. case copyTo um src d of Inl e \<Rightarrow> Inl e | Inr n \<Rightarrow> Inr (Some n))
                 (Some t')))"

definition copyPath ::
  "mode \<Rightarrow> node option \<Rightarrow> path \<Rightarrow> path \<Rightarrow> node option \<Rightarrow> error + node option"
where
  "copyPath um s src dst t =
     (case stat s src of
        Inl e \<Rightarrow> Inl e
      | Inr n \<Rightarrow> if isDir n then copyDir um n dst t else copyFile n dst t)"

subsection \<open>Paths\<close>

text \<open>
  \<^verbatim>\<open>filepath.Join(root, item)\<close> cleans the joined path: empty and \<open>.\<close> elements
  vanish and \<open>..\<close> removes the element before it. \<open>joinPath\<close> gives the path inside the
  tree, and \<open>None\<close> when \<open>..\<close> leads out of the tree, which the model does not follow.
  For the name of a directory entry (never empty, \<open>.\<close>, \<open>..\<close> or with a slash) the
  joined path is the root followed by the name, written \<open>root @ [name]\<close> below.
\<close>

fun cleanInto :: "path \<Rightarrow> string list \<Rightarrow> path option" where
  "cleanInto st [] = Some (rev st)"
| "cleanInto st (c # cs) =
     (if c = [] \<or> c = ''.'' then cleanInto st cs
      else if c = ''..'' then (case st of [] \<Rightarrow> None | x # st' \<Rightarrow> cleanInto st' cs)
      else cleanInto (c # st) cs)"

definition joinPath :: "path \<Rightarrow> string \<Rightarrow> path option" where
  "joinPath root item = cleanInto (rev root) (splitOn (CHR ''/'') item)"

section \<open>The wrapper\<close>

definition excludeFile :: path where
  "excludeFile = [''.git'', ''info'', ''exclude'']"

definition deletionMarker :: string where
  "deletionMarker = ''.deleted_at''"

definition branchesDir :: string where
  "branchesDir = ''branches''"

definition deletionGraceDays :: int where
  "deletionGraceDays = 7"

text \<open>
  \<^verbatim>\<open>Config\<close>: \<^verbatim>\<open>RepoRoot\<close> and \<^verbatim>\<open>StoreBase\<close> are the roots of the two trees of
  the state, and \<open>StoreLocation\<close> is the path of the storage location below
  \<^verbatim>\<open>StoreBase\<close>. \<open>loadConfig\<close> is the computation \<^verbatim>\<open>loadConfig\<close> makes from the two
  branch names git reports (a sanitized name has no slash, and git has no branch named
  \<open>.\<close> or \<open>..\<close>).
\<close>

record Config =
  CurrentBranch :: string
  DefaultBranch :: string
  StoreLocation :: path

definition loadConfig :: "string \<Rightarrow> string \<Rightarrow> Config" where
  "loadConfig currentBranch defaultBranch =
     \<lparr>CurrentBranch = currentBranch, DefaultBranch = defaultBranch,
      StoreLocation =
        (if currentBranch = defaultBranch then []
         else [branchesDir, sanitizeBranchName currentBranch])\<rparr>"

subsection \<open>Listing\<close>

definition listDir :: "node option \<Rightarrow> path \<Rightarrow> error + string list" where
  "listDir t p =
     (case stat t p of
        Inl e \<Rightarrow> (if e = ENOENT then Inr [] else Inl e)
      | Inr (File m c) \<Rightarrow> Inl ENOTDIR
      | Inr (Dir m es) \<Rightarrow> Inr (map fst (readDir es)))"

fun filterItems :: "string list \<Rightarrow> string list" where
  "filterItems [] = []"
| "filterItems (item # items) =
     (if item = deletionMarker \<or> item = branchesDir then filterItems items
      else item # filterItems items)"

subsection \<open>Exclude List Manager\<close>

text \<open>
  The loop of \<^verbatim>\<open>readExcludeFile\<close> over the scanned lines; \<open>t\<close> is the working tree.
  A line whose cleaned path leaves the repository through \<open>..\<close> names a file outside
  the working tree, about which the state says nothing: the program asks \<^verbatim>\<open>os.Stat\<close>
  about that file and keeps or skips the line, and the model ends there with
  \<open>Unmodelled\<close>. No line of this kind occurs in the exclude files of the examples
  below.
\<close>

fun excludeEntries :: "node option \<Rightarrow> string list \<Rightarrow> error + string list" where
  "excludeEntries t [] = Inr []"
| "excludeEntries t (text # rest) =
     (let line = trimSpace text in
      if line = [] \<or> hasPrefix line ''#'' then excludeEntries t rest
      else if containsAny line ''*?[]'' then excludeEntries t rest
      else
        (let line = trimSuffix line ''/'' in
         case joinPath [] line of
           None \<Rightarrow> Inl Unmodelled
         | Some itemPath \<Rightarrow>
             (case excludeEntries t rest of
                Inl e \<Rightarrow> Inl e
              | Inr items \<Rightarrow> if exists t itemPath then Inr (line # items) else Inr items)))"

definition readExcludeFile :: "node option \<Rightarrow> error + string list" where
  "readExcludeFile t =
     (case stat t excludeFile of
        Inl e \<Rightarrow> (if e = ENOENT then Inr [] else Inl e)
      | Inr (Dir m es) \<Rightarrow> Inl EISDIR
      | Inr (File m content) \<Rightarrow>
          (case excludeEntries t (fst (scanLines content)) of
             Inl e \<Rightarrow> Inl e
           | Inr items \<Rightarrow> if snd (scanLines content) then Inl ErrTooLong else Inr items))"

definition addToExclude :: "mode \<Rightarrow> string \<Rightarrow> node option \<Rightarrow> error + node option" where
  "addToExclude um item t =
     (case mkdirAll (masked um 0x1ED) (butlast excludeFile) t of
        Inl e \<Rightarrow> Inl e
      | Inr t1 \<Rightarrow>
          (case stat (Some t1) excludeFile of
             Inr (File m content) \<Rightarrow>
               if item \<in> set (map trimSpace (fst (scanLines content))) then Inr (Some t1)
               else if snd (scanLines content) then Inl ErrTooLong
               else appendFile excludeFile (item @ [CHR 0x0A]) (masked um 0x1A4) (Some t1)
           | Inr (Dir m es) \<Rightarrow> Inl EISDIR
           | Inl e \<Rightarrow> appendFile excludeFile (item @ [CHR 0x0A]) (masked um 0x1A4) (Some t1)))"

subsection \<open>Storage Resolver\<close>

text \<open>
  The loop of \<^verbatim>\<open>initializeBranchStorage\<close> over the entries of the storage root; both
  the source and the destination are paths of the storage tree \<open>t\<close>.
\<close>

fun initializeLoop :: "mode \<Rightarrow> path \<Rightarrow> string list \<Rightarrow> node option \<Rightarrow> error + node option" where
  "initializeLoop um loc [] t = Inr t"
| "initializeLoop um loc (item # items) t =
     (if item = branchesDir \<or> item = deletionMarker then initializeLoop um loc items t
      else
        (case copyPath um t [item] (loc @ [item]) t of
           Inl e \<Rightarrow> Inl e
         | Inr t' \<Rightarrow> initializeLoop um loc items t'))"

definition initializeBranchStorage :: "Config \<Rightarrow> world \<Rightarrow> error + world" where
  "initializeBranchStorage cfg w =
     (if CurrentBranch cfg = DefaultBranch cfg then Inr w
      else if exists (store w) (StoreLocation cfg) then Inr w
      else
        (case mkdirAll (masked (umask w) 0x1ED) (StoreLocation cfg) (store w) of
           Inl e \<Rightarrow> Inl e
         | Inr t \<Rightarrow>
             if exists (Some t) [] then
               (case listDir (Some t) [] of
                  Inl e \<Rightarrow> Inl e
                | Inr items \<Rightarrow>
                    (case initializeLoop (umask w) (StoreLocation cfg) items (Some t) of
                       Inl e \<Rightarrow> Inl e
                     | Inr t' \<Rightarrow> Inr (w\<lparr>store := t'\<rparr>)))
             else Inr (w\<lparr>store := Some t\<rparr>)))"

subsection \<open>Sync Engine\<close>

fun syncInLoop :: "Config \<Rightarrow> string list \<Rightarrow> world \<Rightarrow> error + world" where
  "syncInLoop cfg [] w = Inr w"
| "syncInLoop cfg (item # items) w =
     (case copyPath (umask w) (store w) (StoreLocation cfg @ [item]) [item] (work w) of
        Inl e \<Rightarrow> Inl e
      | Inr t \<Rightarrow>
          (case addToExclude (umask w) item t of
             Inl e \<Rightarrow> Inl e
           | Inr t' \<Rightarrow> syncInLoop cfg items (w\<lparr>work := t'\<rparr>)))"

definition syncIn :: "Config \<Rightarrow> world \<Rightarrow> error + world" where
  "syncIn cfg w =
     (case initializeBranchStorage cfg w of
        Inl e \<Rightarrow> Inl e
      | Inr w1 \<Rightarrow>
          (case listDir (store w1) (StoreLocation cfg) of
             Inl e \<Rightarrow> Inl e
           | Inr items \<Rightarrow> syncInLoop cfg (filterItems items) w1))"

text \<open>The two loops of \<^verbatim>\<open>syncOut\<close>: the copy into storage and the removal pass.\<close>

fun syncOutCopy :: "Config \<Rightarrow> string list \<Rightarrow> world \<Rightarrow> error + world" where
  "syncOutCopy cfg [] w = Inr w"
| "syncOutCopy cfg (item # items) w =
     (case joinPath [] item of
        None \<Rightarrow> Inl Unmodelled
      | Some src \<Rightarrow>
          if \<not> exists (work w) src then syncOutCopy cfg items w
          else
            (case joinPath (StoreLocation cfg) item of
               None \<Rightarrow> Inl Unmodelled
             | Some dst \<Rightarrow>
                 (case copyPath (umask w) (work w) src dst (store w) of
                    Inl e \<Rightarrow> Inl e
                  | Inr t \<Rightarrow> syncOutCopy cfg items (w\<lparr>store := t\<rparr>))))"

fun syncOutRemove :: "Config \<Rightarrow> string list \<Rightarrow> string list \<Rightarrow> world \<Rightarrow> error + world" where
  "syncOutRemove cfg excludeItems [] w = Inr w"
| "syncOutRemove cfg excludeItems (item # items) w =
     (if item = deletionMarker \<or> item = branchesDir then syncOutRemove cfg excludeItems items w
      else if item \<notin> set excludeItems then
        (case osRemoveAll (StoreLocation cfg @ [item]) (store w) of
           Inl e \<Rightarrow> Inl e
         | Inr t \<Rightarrow> syncOutRemove cfg excludeItems items (w\<lparr>store := t\<rparr>))
      else syncOutRemove cfg excludeItems items w)"

definition syncOut :: "Config \<Rightarrow> world \<Rightarrow> error + world" where
  "syncOut cfg w =
     (case readExcludeFile (work w) of
        Inl e \<Rightarrow> Inl e
      | Inr excludeItems \<Rightarrow>
          (case mkdirAll (masked (umask w) 0x1ED) (StoreLocation cfg) (store w) of
             Inl e \<Rightarrow> Inl e
           | Inr t \<Rightarrow>
               (case syncOutCopy cfg excludeItems (w\<lparr>store := Some t\<rparr>) of
                  Inl e \<Rightarrow> Inl e
                | Inr w1 \<Rightarrow>
                    (case listDir (store w1) (StoreLocation cfg) of
                       Inl e \<Rightarrow> Inl e
                     | Inr storageItems \<Rightarrow> syncOutRemove cfg excludeItems storageItems w1))))"

subsection \<open>Retention Manager\<close>

text \<open>
  Go's \<^verbatim>\<open>time.Time\<close> keeps the seconds since January 1 of year 1 in a signed 64-bit
  field and the nanoseconds beside it. \<^verbatim>\<open>time.Unix(sec, 0)\<close> adds the offset
  \<open>unixToInternal\<close> to \<open>sec\<close> in 64-bit arithmetic, which wraps around for the
  largest values of \<open>sec\<close> (the documentation of \<^verbatim>\<open>time.Unix\<close> says that not all
  values have a corresponding time, \<open>1<<63-1\<close> being one). \<^verbatim>\<open>t.Sub(u)\<close> is the
  difference in nanoseconds, and the largest or smallest \<^verbatim>\<open>Duration\<close> when the
  difference does not fit 64 bits.
\<close>

record goTime =
  sec :: int
  nsec :: int

definition unixToInternal :: int where
  "unixToInternal = 62135596800"

definition wrap64 :: "int \<Rightarrow> int" where
  "wrap64 x = (x + 2 ^ 63) mod 2 ^ 64 - 2 ^ 63"

definition timeUnix :: "int \<Rightarrow> goTime" where
  "timeUnix s = \<lparr>sec = wrap64 (s + unixToInternal), nsec = 0\<rparr>"

definition unixOf :: "goTime \<Rightarrow> int" where
  "unixOf t = sec t - unixToInternal"

definition timeSub :: "goTime \<Rightarrow> goTime \<Rightarrow> int" where
  "timeSub t u =
     (let d = (sec t - sec u) * 1000000000 + (nsec t - nsec u) in
      if d > 2 ^ 63 - 1 then 2 ^ 63 - 1 else if d < - (2 ^ 63) then - (2 ^ 63) else d)"

definition gracePeriod :: int where
  "gracePeriod = deletionGraceDays * 24 * 3600000000000"

text \<open>
  One round of the loop of \<^verbatim>\<open>cleanupDeletedBranches\<close>, for the entry \<open>dirName\<close> of
  \<^verbatim>\<open>branches/\<close>: \<open>t\<close> is the storage tree. A failure of \<^verbatim>\<open>os.Remove\<close>,
  \<^verbatim>\<open>os.RemoveAll\<close> or \<^verbatim>\<open>os.WriteFile\<close> is logged at most and leaves the tree as
  it is.
\<close>

definition cleanupEntry ::
  "Config \<Rightarrow> string set \<Rightarrow> goTime \<Rightarrow> mode \<Rightarrow> string \<times> node \<Rightarrow> node option \<Rightarrow> node option"
where
  "cleanupEntry cfg gitBranches now um entry t =
     (if \<not> isDir (snd entry) then t
      else
        (let dirName = fst entry;
             branchName = unsanitizeBranchName dirName;
             branchPath = [branchesDir, dirName];
             markerPath = branchPath @ [deletionMarker]
         in if branchName = CurrentBranch cfg then t
            else if branchName \<in> gitBranches then
              (case osRemove markerPath t of Inl e \<Rightarrow> t | Inr t' \<Rightarrow> t')
            else
              (case readFile markerPath t of
                 Inr data \<Rightarrow>
                   (case parseInt (trimSpace data) of
                      Some timestamp \<Rightarrow>
                        if timeSub now (timeUnix timestamp) > gracePeriod then
                          (case osRemoveAll branchPath t of Inl e \<Rightarrow> t | Inr t' \<Rightarrow> t')
                        else t
                    | None \<Rightarrow> t)
               | Inl e \<Rightarrow>
                   (case writeFile markerPath (formatInt (unixOf now)) (masked um 0x1A4) t of
                      Inl e \<Rightarrow> t
                    | Inr t' \<Rightarrow> t'))))"

fun cleanupLoop ::
  "Config \<Rightarrow> string set \<Rightarrow> goTime \<Rightarrow> mode \<Rightarrow> (string \<times> node) list \<Rightarrow> node option \<Rightarrow> node option"
where
  "cleanupLoop cfg gitBranches now um [] t = t"
| "cleanupLoop cfg gitBranches now um (entry # entries) t =
     cleanupLoop cfg gitBranches now um entries (cleanupEntry cfg gitBranches now um entry t)"

text \<open>
  \<open>getAllBranches\<close> is what \<^verbatim>\<open>getAllBranchesFunc\<close> returns (the live branches, or
  the error of the git call) and \<open>now\<close> is \<^verbatim>\<open>time.Now()\<close>.
\<close>

definition cleanupDeletedBranches ::
  "Config \<Rightarrow> error + string set \<Rightarrow> goTime \<Rightarrow> world \<Rightarrow> error + world"
where
  "cleanupDeletedBranches cfg getAllBranches now w =
     (if stat (store w) [branchesDir] = Inl ENOENT then Inr w
      else
        (case getAllBranches of
           Inl e \<Rightarrow> Inl e
         | Inr gitBranches \<Rightarrow>
             (case stat (store w) [branchesDir] of
                Inl e \<Rightarrow> Inl e
              | Inr (File m c) \<Rightarrow> Inl ENOTDIR
              | Inr (Dir m entries) \<Rightarrow>
                  Inr (w\<lparr>store :=
                    cleanupLoop cfg gitBranches now (umask w) (readDir entries) (store w)\<rparr>))))"

subsection \<open>The run\<close>

text \<open>
  The wrapped program is a function of the state: it may change the trees, and it ends
  with an exit code (\<open>Exit\<close>; \<^verbatim>\<open>cmd.Run\<close> returns no error for 0 and an
  \<^verbatim>\<open>ExitError\<close> otherwise) or does not run at all (\<open>RunFailed\<close>, any other error of
  \<^verbatim>\<open>cmd.Run\<close>). \<open>run\<close> returns \<open>Err code e\<close> for Go's \<open>(code, err)\<close>, \<open>Ok code w\<close>
  for \<open>(code, nil)\<close> in the final state \<open>w\<close>, and \<open>Exec\<close> when the process was replaced
  by the wrapped program outside a repository.
\<close>

datatype claudeRun = Exit int | RunFailed

datatype runResult = Exec | Err int error | Ok int world

fun runClaude :: "claudeRun \<Rightarrow> int" where
  "runClaude (Exit code) = code"
| "runClaude RunFailed = 1"

definition run ::
  "error + Config \<Rightarrow> (world \<Rightarrow> claudeRun \<times> world) \<Rightarrow> error + string set \<Rightarrow> goTime \<Rightarrow> world
   \<Rightarrow> runResult"
where
  "run config claude getAllBranches now w =
     (case config of
        Inl e \<Rightarrow> Exec
      | Inr cfg \<Rightarrow>
          (case syncIn cfg w of
             Inl e \<Rightarrow> Err 0 e
           | Inr w1 \<Rightarrow>
               (let claudeExit = runClaude (fst (claude w1)); w2 = snd (claude w1) in
                case syncOut cfg w2 of
                  Inl e \<Rightarrow> Err claudeExit e
                | Inr w3 \<Rightarrow>
                    (case cleanupDeletedBranches cfg getAllBranches now w3 of
                       Inl e \<Rightarrow> Ok claudeExit w3
                     | Inr w4 \<Rightarrow> Ok claudeExit w4))))"

section \<open>Path Sanitizer: the round trip\<close>

text \<open>The encoding written character by character.\<close>

definition encPercent :: "char \<Rightarrow> string" where
  "encPercent c = (if c = CHR ''%'' then ''%25'' else [c])"

definition encBoth :: "char \<Rightarrow> string" where
  "encBoth c = (if c = CHR ''%'' then ''%25'' else if c = CHR ''/'' then ''%2F'' else [c])"

lemma replace_percent: "replaceFrom ''%'' ''%25'' x = concat (map encPercent x)"
proof (induction x)
  case Nil
  show ?case by simp
next
  case (Cons c cs)
  show ?case
  proof (cases "c = CHR ''%''")
    case True
    have "replaceFrom ''%'' ''%25'' (CHR ''%'' # cs) = ''%25'' @ replaceFrom ''%'' ''%25'' cs"
      by simp
    with True Cons show ?thesis by (simp add: encPercent_def)
  next
    case False
    then have "replaceFrom ''%'' ''%25'' (c # cs) = c # replaceFrom ''%'' ''%25'' cs"
      by simp
    with False Cons show ?thesis by (simp add: encPercent_def)
  qed
qed

lemma replace_slash:
  "replaceFrom ''/'' ''%2F'' (concat (map encPercent x)) = concat (map encBoth x)"
proof (induction x)
  case Nil
  show ?case by simp
next
  case (Cons c cs)
  let ?r = "concat (map encPercent cs)"
  consider "c = CHR ''%''" | "c = CHR ''/''" | "c \<noteq> CHR ''%''" "c \<noteq> CHR ''/''"
    by blast
  then show ?case
  proof cases
    case 1
    have "replaceFrom ''/'' ''%2F'' (''%25'' @ ?r) = ''%25'' @ replaceFrom ''/'' ''%2F'' ?r"
      by simp
    with 1 Cons show ?thesis by (simp add: encPercent_def encBoth_def)
  next
    case 2
    have "replaceFrom ''/'' ''%2F'' (CHR ''/'' # ?r) = ''%2F'' @ replaceFrom ''/'' ''%2F'' ?r"
      by simp
    with 2 Cons show ?thesis by (simp add: encPercent_def encBoth_def)
  next
    case 3
    then have "replaceFrom ''/'' ''%2F'' (c # ?r) = c # replaceFrom ''/'' ''%2F'' ?r"
      by simp
    with 3 Cons show ?thesis by (simp add: encPercent_def encBoth_def)
  qed
qed

lemma sanitize_chars: "sanitizeBranchName x = concat (map encBoth x)"
  by (simp add: sanitizeBranchName_def replaceAll_def replace_percent replace_slash)

lemma decode_slash:
  "replaceFrom ''%2F'' ''/'' (concat (map encBoth x)) = concat (map encPercent x)"
proof (induction x)
  case Nil
  show ?case by simp
next
  case (Cons c cs)
  let ?r = "concat (map encBoth cs)"
  consider "c = CHR ''%''" | "c = CHR ''/''" | "c \<noteq> CHR ''%''" "c \<noteq> CHR ''/''"
    by blast
  then show ?case
  proof cases
    case 1
    have "replaceFrom ''%2F'' ''/'' (''%25'' @ ?r) = ''%25'' @ replaceFrom ''%2F'' ''/'' ?r"
      by simp
    with 1 Cons show ?thesis by (simp add: encPercent_def encBoth_def)
  next
    case 2
    have "replaceFrom ''%2F'' ''/'' (''%2F'' @ ?r) = ''/'' @ replaceFrom ''%2F'' ''/'' ?r"
      by simp
    with 2 Cons show ?thesis by (simp add: encPercent_def encBoth_def)
  next
    case 3
    then have "replaceFrom ''%2F'' ''/'' (c # ?r) = c # replaceFrom ''%2F'' ''/'' ?r"
      by simp
    with 3 Cons show ?thesis by (simp add: encPercent_def encBoth_def)
  qed
qed

lemma decode_percent: "replaceFrom ''%25'' ''%'' (concat (map encPercent x)) = x"
proof (induction x)
  case Nil
  show ?case by simp
next
  case (Cons c cs)
  let ?r = "concat (map encPercent cs)"
  show ?case
  proof (cases "c = CHR ''%''")
    case True
    have "replaceFrom ''%25'' ''%'' (''%25'' @ ?r) = ''%'' @ replaceFrom ''%25'' ''%'' ?r"
      by simp
    with True Cons show ?thesis by (simp add: encPercent_def)
  next
    case False
    then have "replaceFrom ''%25'' ''%'' (c # ?r) = c # replaceFrom ''%25'' ''%'' ?r"
      by simp
    with False Cons show ?thesis by (simp add: encPercent_def)
  qed
qed

text \<open>
  C4. Decoding a sanitized branch name gives the branch name back. The statement
  holds for every string, so in particular for the names whose only special
  characters are \<open>/\<close> and \<open>%\<close>.
\<close>

theorem unsanitize_sanitize: "unsanitizeBranchName (sanitizeBranchName x) = x"
  by (simp add: unsanitizeBranchName_def replaceAll_def sanitize_chars decode_slash
      decode_percent)

section \<open>Facts about paths and single-path changes\<close>

lemma map_of_update_other: "x \<noteq> y \<Longrightarrow> map_of (AList.update x c es) y = map_of es y"
  by (simp add: AList.update_conv')

lemma map_of_delete_other: "x \<noteq> y \<Longrightarrow> map_of (AList.delete x es) y = map_of es y"
  by (simp add: AList.delete_conv')

lemma alterAt_Inr_cases:
  assumes "alterAt (x # p) f t = Inr t'"
  obtains m es r where "t = Some (Dir m es)" "alterAt p f (map_of es x) = Inr r"
    "t' = Some (Dir m (case r of None \<Rightarrow> AList.delete x es | Some c \<Rightarrow> AList.update x c es))"
proof (cases t)
  case None
  with assms show ?thesis by simp
next
  case (Some n)
  show ?thesis
  proof (cases n)
    case (File m c)
    with Some assms show ?thesis by simp
  next
    case (Dir m es)
    with Some assms obtain r where r: "alterAt p f (map_of es x) = Inr r"
      by (cases "alterAt p f (map_of es x)") auto
    with Some Dir assms have
      "t' = Some (Dir m (case r of None \<Rightarrow> AList.delete x es | Some c \<Rightarrow> AList.update x c es))"
      by (cases r) auto
    with Some Dir r that show ?thesis by blast
  qed
qed

lemma stat_alterAt_other:
  "alterAt p f t = Inr t' \<Longrightarrow> \<not> prefix p q \<Longrightarrow> \<not> prefix q p \<Longrightarrow> stat t' q = stat t q"
proof (induction p arbitrary: q t t')
  case Nil
  then show ?case by simp
next
  case (Cons x p)
  from Cons.prems(1) obtain m es r where t: "t = Some (Dir m es)"
    and r: "alterAt p f (map_of es x) = Inr r"
    and t': "t' = Some (Dir m (case r of None \<Rightarrow> AList.delete x es | Some c \<Rightarrow> AList.update x c es))"
    by (rule alterAt_Inr_cases)
  from Cons.prems(3) obtain y q' where q: "q = y # q'" by (cases q) auto
  show ?case
  proof (cases "x = y")
    case False
    then show ?thesis
      by (cases r) (simp_all add: t t' q map_of_update_other map_of_delete_other)
  next
    case True
    with Cons.prems q have "\<not> prefix p q'" "\<not> prefix q' p" by auto
    with Cons.IH [OF r] have "stat r q' = stat (map_of es x) q'" by blast
    with True show ?thesis
      by (cases r) (simp_all add: t t' q AList.update_conv' AList.delete_conv')
  qed
qed

lemma stat_append: "stat t p = Inr n \<Longrightarrow> stat t (p @ q) = stat (Some n) q"
  by (induction t p rule: stat.induct) auto

lemma stat_append_Inl: "stat t p = Inl e \<Longrightarrow> stat t (p @ q) = Inl e"
  by (induction t p rule: stat.induct) auto

lemma removeAll_other:
  "osRemoveAll p t = Inr t' \<Longrightarrow> \<not> prefix p q \<Longrightarrow> \<not> prefix q p \<Longrightarrow> stat t' q = stat t q"
  by (auto simp: osRemoveAll_def stat_alterAt_other split: sum.splits if_splits)

lemma alterAt_missing: "stat t p = Inl e \<Longrightarrow> q \<noteq> [] \<Longrightarrow> \<exists>e'. alterAt (p @ q) f t = Inl e'"
proof (induction t p rule: stat.induct)
  case (1 p)
  then show ?case by (cases p; cases q) auto
next
  case (2 n)
  then show ?case by simp
next
  case (3 m c x p)
  then show ?case by simp
next
  case (4 m es x p)
  then obtain e' where "alterAt (p @ q) f (map_of es x) = Inl e'" by auto
  then show ?case by simp
qed

lemma alterAt_remove:
  "stat t p = Inr n \<Longrightarrow> \<exists>t'. alterAt p (\<lambda>d. Inr None) t = Inr t' \<and> stat t' p = Inl ENOENT"
proof (induction t p arbitrary: n rule: stat.induct)
  case (1 p)
  then show ?case by simp
next
  case (2 n)
  then show ?case by simp
next
  case (3 m c x p)
  then show ?case by simp
next
  case (4 m es x p)
  then obtain r where r: "alterAt p (\<lambda>d. Inr None) (map_of es x) = Inr r" "stat r p = Inl ENOENT"
    by auto
  then show ?case
    by (cases r) (simp_all add: AList.update_conv' AList.delete_conv')
qed

lemma removeAll_existing:
  "stat t p = Inr n \<Longrightarrow> \<exists>t'. osRemoveAll p t = Inr t' \<and> stat t' p = Inl ENOENT"
  using alterAt_remove [of t p n] by (simp add: osRemoveAll_def)

section \<open>Retention Manager: one directory through the pass\<close>

lemma cleanupEntry_other:
  assumes "fst entry \<noteq> d"
  shows "stat (cleanupEntry cfg live now um entry t) (branchesDir # d # q)
         = stat t (branchesDir # d # q)"
proof -
  let ?n = "fst entry"
  let ?q = "branchesDir # d # q"
  have a: "stat t' ?q = stat t ?q" if "osRemove [branchesDir, ?n, deletionMarker] t = Inr t'" for t'
    using that assms unfolding osRemove_def by (intro stat_alterAt_other) auto
  have b: "stat t' ?q = stat t ?q" if "osRemoveAll [branchesDir, ?n] t = Inr t'" for t'
    using that assms by (intro removeAll_other) auto
  have c: "stat t' ?q = stat t ?q"
    if "writeFile [branchesDir, ?n, deletionMarker] s m t = Inr t'" for t' s m
    using that assms unfolding writeFile_def by (intro stat_alterAt_other) auto
  show ?thesis
    unfolding cleanupEntry_def Let_def
    by (auto simp: a b c split: sum.splits option.splits)
qed

lemma cleanupLoop_current:
  assumes "unsanitizeBranchName d = CurrentBranch cfg"
  shows "stat (cleanupLoop cfg live now um entries t) (branchesDir # d # q)
         = stat t (branchesDir # d # q)"
proof (induction entries arbitrary: t)
  case Nil
  show ?case by simp
next
  case (Cons e es)
  have "stat (cleanupEntry cfg live now um e t) (branchesDir # d # q) = stat t (branchesDir # d # q)"
  proof (cases "fst e = d")
    case True
    with assms show ?thesis by (simp add: cleanupEntry_def)
  next
    case False
    then show ?thesis by (rule cleanupEntry_other)
  qed
  with Cons.IH show ?case by simp
qed

text \<open>The entry of a branch that is neither current nor live, by what its marker holds.\<close>

lemma readFile_below:
  "stat t p = Inr n \<Longrightarrow> readFile (p @ q) t = readFile q (Some n)"
  by (simp add: readFile_def stat_append)

lemma cleanupEntry_unparsable:
  assumes "fst entry = d" "unsanitizeBranchName d \<notin> live"
    and "readFile [branchesDir, d, deletionMarker] t = Inr data"
    and "parseInt (trimSpace data) = None"
  shows "cleanupEntry cfg live now um entry t = t"
  using assms by (simp add: cleanupEntry_def Let_def)

lemma cleanupEntry_retained:
  assumes "fst entry = d" "unsanitizeBranchName d \<notin> live"
    and "readFile [branchesDir, d, deletionMarker] t = Inr data"
    and "parseInt (trimSpace data) = Some ts"
    and "\<not> timeSub now (timeUnix ts) > gracePeriod"
  shows "cleanupEntry cfg live now um entry t = t"
  using assms by (simp add: cleanupEntry_def Let_def)

lemma cleanupEntry_gone:
  assumes "fst entry = d" "unsanitizeBranchName d \<notin> live"
    and "stat t [branchesDir, d] = Inl ENOENT"
  shows "stat (cleanupEntry cfg live now um entry t) [branchesDir, d] = Inl ENOENT"
proof -
  have m: "stat t [branchesDir, d, deletionMarker] = Inl ENOENT"
    using stat_append_Inl [OF assms(3), of "[deletionMarker]"] by simp
  obtain e' where
    "writeFile [branchesDir, d, deletionMarker] (formatInt (unixOf now)) (masked um 0x1A4) t = Inl e'"
    using alterAt_missing [OF assms(3), of "[deletionMarker]"] by (auto simp: writeFile_def)
  then show ?thesis
    using assms m by (auto simp: cleanupEntry_def readFile_def Let_def)
qed

lemma cleanupEntry_expired:
  assumes "fst entry = d" "isDir (snd entry)" "unsanitizeBranchName d \<notin> live"
    and "unsanitizeBranchName d \<noteq> CurrentBranch cfg"
    and "stat t [branchesDir, d] = Inr n"
    and "readFile [branchesDir, d, deletionMarker] t = Inr data"
    and "parseInt (trimSpace data) = Some ts"
    and "timeSub now (timeUnix ts) > gracePeriod"
  shows "stat (cleanupEntry cfg live now um entry t) [branchesDir, d] = Inl ENOENT"
  using assms removeAll_existing [OF assms(5)] by (auto simp: cleanupEntry_def Let_def)

lemma cleanupLoop_unparsable:
  assumes "unsanitizeBranchName d \<notin> live"
    and "stat t [branchesDir, d] = Inr n"
    and "readFile [deletionMarker] (Some n) = Inr data"
    and "parseInt (trimSpace data) = None"
  shows "stat (cleanupLoop cfg live now um entries t) [branchesDir, d] = Inr n"
  using assms(2)
proof (induction entries arbitrary: t)
  case Nil
  then show ?case by simp
next
  case (Cons e es)
  have "stat (cleanupEntry cfg live now um e t) [branchesDir, d] = Inr n"
  proof (cases "fst e = d")
    case True
    have "readFile [branchesDir, d, deletionMarker] t = Inr data"
      using readFile_below [OF Cons.prems, of "[deletionMarker]"] assms(3) by simp
    with True assms Cons.prems show ?thesis
      by (simp add: cleanupEntry_unparsable)
  next
    case False
    then show ?thesis
      using cleanupEntry_other [of e d cfg live now um t "[]"] Cons.prems by simp
  qed
  then show ?case by (simp add: Cons.IH)
qed

lemma cleanupLoop_retained:
  assumes "unsanitizeBranchName d \<notin> live"
    and "stat t [branchesDir, d] = Inr n"
    and "readFile [deletionMarker] (Some n) = Inr data"
    and "parseInt (trimSpace data) = Some ts"
    and "\<not> timeSub now (timeUnix ts) > gracePeriod"
  shows "stat (cleanupLoop cfg live now um entries t) [branchesDir, d] = Inr n"
  using assms(2)
proof (induction entries arbitrary: t)
  case Nil
  then show ?case by simp
next
  case (Cons e es)
  have "stat (cleanupEntry cfg live now um e t) [branchesDir, d] = Inr n"
  proof (cases "fst e = d")
    case True
    have "readFile [branchesDir, d, deletionMarker] t = Inr data"
      using readFile_below [OF Cons.prems, of "[deletionMarker]"] assms(3) by simp
    with True assms Cons.prems show ?thesis
      by (simp add: cleanupEntry_retained)
  next
    case False
    then show ?thesis
      using cleanupEntry_other [of e d cfg live now um t "[]"] Cons.prems by simp
  qed
  then show ?case by (simp add: Cons.IH)
qed

lemma cleanupLoop_gone:
  assumes "unsanitizeBranchName d \<notin> live"
    and "stat t [branchesDir, d] = Inl ENOENT"
  shows "stat (cleanupLoop cfg live now um entries t) [branchesDir, d] = Inl ENOENT"
  using assms(2)
proof (induction entries arbitrary: t)
  case Nil
  then show ?case by simp
next
  case (Cons e es)
  have "stat (cleanupEntry cfg live now um e t) [branchesDir, d] = Inl ENOENT"
  proof (cases "fst e = d")
    case True
    with assms(1) Cons.prems show ?thesis by (simp add: cleanupEntry_gone)
  next
    case False
    then show ?thesis
      using cleanupEntry_other [of e d cfg live now um t "[]"] Cons.prems by simp
  qed
  then show ?case by (simp add: Cons.IH)
qed

lemma cleanupLoop_expired:
  assumes "unsanitizeBranchName d \<notin> live"
    and "unsanitizeBranchName d \<noteq> CurrentBranch cfg"
    and "readFile [deletionMarker] (Some n) = Inr data"
    and "parseInt (trimSpace data) = Some ts"
    and "timeSub now (timeUnix ts) > gracePeriod"
    and "stat t [branchesDir, d] = Inr n"
    and "(d, c) \<in> set entries" "isDir c"
  shows "stat (cleanupLoop cfg live now um entries t) [branchesDir, d] = Inl ENOENT"
  using assms(6,7)
proof (induction entries arbitrary: t)
  case Nil
  then show ?case by simp
next
  case (Cons e es)
  have marker: "readFile [branchesDir, d, deletionMarker] t = Inr data"
    using readFile_below [OF Cons.prems(1), of "[deletionMarker]"] assms(3) by simp
  show ?case
  proof (cases "fst e = d")
    case False
    then have "stat (cleanupEntry cfg live now um e t) [branchesDir, d] = Inr n"
      using cleanupEntry_other [of e d cfg live now um t "[]"] Cons.prems by simp
    moreover from False Cons.prems(2) have "(d, c) \<in> set es" by auto
    ultimately show ?thesis by (simp add: Cons.IH)
  next
    case True
    show ?thesis
    proof (cases "isDir (snd e)")
      case dir: True
      have "stat (cleanupEntry cfg live now um e t) [branchesDir, d] = Inl ENOENT"
        using True dir assms(1,2) Cons.prems(1) marker assms(4,5) by (rule cleanupEntry_expired)
      then show ?thesis by (simp add: cleanupLoop_gone [OF assms(1)])
    next
      case False
      then have same: "cleanupEntry cfg live now um e t = t" by (simp add: cleanupEntry_def)
      from False True Cons.prems(2) assms(8) have "(d, c) \<in> set es" by (cases e) auto
      with same Cons.prems(1) show ?thesis by (simp add: Cons.IH)
    qed
  qed
qed

lemma stat_branch_entry:
  assumes "stat t [branchesDir, d] = Inr n"
  obtains m entries where "stat t [branchesDir] = Inr (Dir m entries)" "map_of entries d = Some n"
proof -
  from assms obtain r where t: "t = Some r" by (cases t) auto
  from assms t obtain m0 es0 where r: "r = Dir m0 es0" by (cases r) auto
  from assms t r obtain b where b: "map_of es0 branchesDir = Some b"
    by (cases "map_of es0 branchesDir") auto
  from assms t r b obtain m entries where bd: "b = Dir m entries" by (cases b) auto
  from assms t r b bd have "map_of entries d = Some n"
    by (cases "map_of entries d") auto
  moreover have "stat t [branchesDir] = Inr (Dir m entries)" by (simp add: t r b bd)
  ultimately show ?thesis by (rule that [rotated])
qed

lemma digits_nonneg:
  "list_all isDigit ds \<Longrightarrow> 0 \<le> acc
   \<Longrightarrow> 0 \<le> foldl (\<lambda>acc c. 10 * acc + (of_char c - 48)) (acc :: int) ds"
  by (induction ds arbitrary: acc) (auto simp: isDigit_def)

lemma parseUint_nonneg: "parseUint ds = Some n \<Longrightarrow> 0 \<le> n"
  using digits_nonneg [of ds 0] by (auto simp: parseUint_def split: if_splits)

lemma parseInt_range: "parseInt s = Some ts \<Longrightarrow> - (2 ^ 63) \<le> ts \<and> ts < 2 ^ 63"
  by (auto simp: parseInt_def Let_def split: list.splits option.splits if_splits
      dest!: parseUint_nonneg)

lemma wrap64_id: "- (2 ^ 63) \<le> x \<Longrightarrow> x < 2 ^ 63 \<Longrightarrow> wrap64 x = x"
  by (simp add: wrap64_def)

lemma expired_iff:
  assumes "- (2 ^ 63) \<le> ts" "ts + unixToInternal < 2 ^ 63"
  shows "timeSub now (timeUnix ts) > gracePeriod
         \<longleftrightarrow> (unixOf now - ts) * 1000000000 + nsec now > 604800 * 1000000000"
proof -
  have "- (2 ^ 63) \<le> ts + unixToInternal" using assms(1) by (simp add: unixToInternal_def)
  then have "wrap64 (ts + unixToInternal) = ts + unixToInternal"
    using assms(2) by (rule wrap64_id)
  then show ?thesis
    by (simp add: timeSub_def timeUnix_def unixOf_def gracePeriod_def deletionGraceDays_def
        Let_def algebra_simps)
qed

text \<open>
  The rounds of the loop do not interfere: a round changes the directory of its own
  entry only, and what it makes of that directory depends on that directory only.
\<close>

lemma alterAt_below:
  "stat t p = Inr n \<Longrightarrow>
   (case alterAt (p @ q) f t of
      Inl e \<Rightarrow> alterAt q f (Some n) = Inl e
    | Inr t' \<Rightarrow> (\<exists>r. alterAt q f (Some n) = Inr r \<and> stat t' p = stat r []))"
proof (induction t p rule: stat.induct)
  case (1 p)
  then show ?case by simp
next
  case (2 n')
  then show ?case by (auto split: sum.splits)
next
  case (3 m c x p)
  then show ?case by simp
next
  case (4 m es x p)
  from 4 have IH: "case alterAt (p @ q) f (map_of es x) of
      Inl e \<Rightarrow> alterAt q f (Some n) = Inl e
    | Inr t' \<Rightarrow> (\<exists>r. alterAt q f (Some n) = Inr r \<and> stat t' p = stat r [])" by simp
  show ?case
  proof (cases "alterAt (p @ q) f (map_of es x)")
    case (Inl e)
    with IH show ?thesis by simp
  next
    case (Inr r0)
    with IH obtain r where r: "alterAt q f (Some n) = Inr r" "stat r0 p = stat r []" by auto
    show ?thesis
    proof (cases r0)
      case None
      with Inr r show ?thesis by (simp add: AList.delete_conv')
    next
      case (Some c)
      with Inr r show ?thesis by (simp add: AList.update_conv')
    qed
  qed
qed

text \<open>
  A change below \<open>p\<close>, a failure leaving the tree as it is: what is at \<open>p\<close> afterwards
  depends on the node at \<open>p\<close> only.
\<close>

lemma alterAt_local:
  assumes "stat t p = Inr n" and "stat u p = Inr n"
  shows "stat (case alterAt (p @ q) f u of Inl e \<Rightarrow> u | Inr t' \<Rightarrow> t') p
         = stat (case alterAt (p @ q) f t of Inl e \<Rightarrow> t | Inr t' \<Rightarrow> t') p"
  using alterAt_below [OF assms(1), of q f] alterAt_below [OF assms(2), of q f] assms
  by (auto split: sum.splits)

lemma cleanupEntry_local:
  assumes "stat t [branchesDir, fst entry] = Inr n"
    and "stat u [branchesDir, fst entry] = Inr n"
  shows "stat (cleanupEntry cfg live now um entry u) [branchesDir, fst entry]
         = stat (cleanupEntry cfg live now um entry t) [branchesDir, fst entry]"
proof -
  let ?p = "[branchesDir, fst entry]"
  let ?m = "[branchesDir, fst entry, deletionMarker]"
  have mp: "?m = ?p @ [deletionMarker]" by simp
  have rf: "readFile ?m u = readFile ?m t"
    using readFile_below [OF assms(1), of "[deletionMarker]"]
      readFile_below [OF assms(2), of "[deletionMarker]"] by simp
  have rm: "stat (case osRemove ?m u of Inl e \<Rightarrow> u | Inr t' \<Rightarrow> t') ?p
            = stat (case osRemove ?m t of Inl e \<Rightarrow> t | Inr t' \<Rightarrow> t') ?p"
    unfolding osRemove_def mp
    by (rule alterAt_local [OF assms])
  have wf: "stat (case writeFile ?m s perm u of Inl e \<Rightarrow> u | Inr t' \<Rightarrow> t') ?p
            = stat (case writeFile ?m s perm t of Inl e \<Rightarrow> t | Inr t' \<Rightarrow> t') ?p" for s perm
    unfolding writeFile_def mp
    by (rule alterAt_local [OF assms])
  have ra: "stat (case osRemoveAll ?p u of Inl e \<Rightarrow> u | Inr t' \<Rightarrow> t') ?p
            = stat (case osRemoveAll ?p t of Inl e \<Rightarrow> t | Inr t' \<Rightarrow> t') ?p"
    using removeAll_existing [OF assms(1)] removeAll_existing [OF assms(2)] by auto
  show ?thesis
    unfolding cleanupEntry_def Let_def
    using rf rm wf ra assms
    by (simp split: sum.splits option.splits)
qed

lemma cleanupLoop_other:
  "d \<notin> fst ` set entries
   \<Longrightarrow> stat (cleanupLoop cfg live now um entries t) (branchesDir # d # q)
       = stat t (branchesDir # d # q)"
proof (induction entries arbitrary: t)
  case Nil
  show ?case by simp
next
  case (Cons e es)
  from Cons.prems have "fst e \<noteq> d" "d \<notin> fst ` set es" by auto
  with Cons.IH [of "cleanupEntry cfg live now um e t"]
    cleanupEntry_other [of e d cfg live now um t q]
  show ?case by simp
qed

lemma cleanupLoop_entry:
  "distinct (map fst entries) \<Longrightarrow> entry \<in> set entries
   \<Longrightarrow> stat t [branchesDir, fst entry] = Inr n
   \<Longrightarrow> stat (cleanupLoop cfg live now um entries t) [branchesDir, fst entry]
       = stat (cleanupEntry cfg live now um entry t) [branchesDir, fst entry]"
proof (induction entries arbitrary: t)
  case Nil
  then show ?case by simp
next
  case (Cons e es)
  show ?case
  proof (cases "entry = e")
    case True
    from Cons.prems(1) have "fst e \<notin> fst ` set es" by simp
    from cleanupLoop_other [OF this, of cfg live now um "cleanupEntry cfg live now um e t" "[]"] True
    show ?thesis by simp
  next
    case False
    with Cons.prems(2) have mem: "entry \<in> set es" by simp
    with Cons.prems(1) have ne: "fst e \<noteq> fst entry" by (auto simp: image_iff)
    let ?u = "cleanupEntry cfg live now um e t"
    have u: "stat ?u [branchesDir, fst entry] = Inr n"
      using cleanupEntry_other [OF ne, of cfg live now um t "[]"] Cons.prems(3) by simp
    from Cons.prems(1) have "distinct (map fst es)" by simp
    from Cons.IH [OF this mem u]
    have "stat (cleanupLoop cfg live now um es ?u) [branchesDir, fst entry]
          = stat (cleanupEntry cfg live now um entry ?u) [branchesDir, fst entry]" .
    also have "\<dots> = stat (cleanupEntry cfg live now um entry t) [branchesDir, fst entry]"
      using Cons.prems(3) u by (rule cleanupEntry_local)
    finally show ?thesis by simp
  qed
qed

lemma stat_listed_entry:
  assumes "stat t [branchesDir] = Inr (Dir m entries)" and "entry \<in> set (readDir entries)"
  shows "stat t [branchesDir, fst entry] = Inr (snd entry)"
proof -
  from assms(2) have "map_of entries (fst entry) = Some (snd entry)"
    using readDir_entry [of "fst entry" "snd entry" entries] by simp
  with stat_append [OF assms(1), of "[fst entry]"] show ?thesis by simp
qed

text \<open>
  A storage tree for the examples of this section: the default branch's file, the
  storage of the branch \<open>topic\<close> with a marker from 1970, and the storage of the branch
  \<open>broken\<close> whose marker is no number. The clock shows 14 November 2023.
\<close>

definition retentionStore :: "node option" where
  "retentionStore =
     Some (Dir 0x1ED
       [(''CLAUDE.md'', File 0x1A4 ''default''),
        (''branches'', Dir 0x1ED
          [(''topic'', Dir 0x1ED
              [(''CLAUDE.md'', File 0x1A4 ''topic notes''),
               (''.deleted_at'', File 0x1A4 ''1000'')]),
           (''broken'', Dir 0x1ED
              [(''.deleted_at'', File 0x1A4 ''yesterday'')])])])"

definition retentionWorld :: world where
  "retentionWorld = \<lparr>work = Some (Dir 0x1ED []), store = retentionStore, umask = 0x12\<rparr>"

definition retentionNow :: goTime where
  "retentionNow = \<lparr>sec = 62135596800 + 1700000000, nsec = 5\<rparr>"

text \<open>
  C6. Whatever the retention pass returns, the storage directory of every entry of
  \<open>branches/\<close> whose decoded name is the current branch is afterwards the very node it
  was before, with everything below it: it is neither deleted nor given a marker, and
  the set of live branches plays no role.
\<close>

theorem cleanup_skips_current:
  assumes "cleanupDeletedBranches cfg getAllBranches now w = Inr w'"
    and "unsanitizeBranchName d = CurrentBranch cfg"
  shows "stat (store w') [branchesDir, d] = stat (store w) [branchesDir, d]"
  using assms
  by (auto simp: cleanupDeletedBranches_def cleanupLoop_current
      split: if_splits sum.splits node.splits)

theorem cleanup_skips_current_witness:
  "cleanupDeletedBranches (loadConfig ''topic'' ''main'') (Inr {''main''})
     retentionNow retentionWorld = Inr retentionWorld
   \<and> unsanitizeBranchName ''topic'' = CurrentBranch (loadConfig ''topic'' ''main'')
   \<and> stat (store retentionWorld) [branchesDir, ''topic'']
       = Inr (Dir 0x1ED [(''CLAUDE.md'', File 0x1A4 ''topic notes''),
                         (''.deleted_at'', File 0x1A4 ''1000'')])"
proof -
  have run: "cleanupDeletedBranches (loadConfig ''topic'' ''main'') (Inr {''main''})
               retentionNow retentionWorld = Inr retentionWorld"
    by code_simp
  have cur: "unsanitizeBranchName ''topic'' = CurrentBranch (loadConfig ''topic'' ''main'')"
    by code_simp
  have dir: "stat (store retentionWorld) [branchesDir, ''topic'']
             = Inr (Dir 0x1ED [(''CLAUDE.md'', File 0x1A4 ''topic notes''),
                               (''.deleted_at'', File 0x1A4 ''1000'')])"
    by code_simp
  from cleanup_skips_current [OF run cur] run cur dir show ?thesis by simp
qed

text \<open>
  C7. A directory of \<open>branches/\<close> whose branch is not live and whose marker file does not
  parse as a number: the pass ends without an error, the directory is afterwards the
  node it was before (not deleted, the marker not rewritten), and the working tree is
  untouched. The scan does not stop there: every other entry of the listing of
  \<open>branches/\<close>, before or after this one, ends the pass as the round of the loop for
  that entry leaves it, be it marked, unmarked, deleted or kept.
\<close>

theorem cleanup_unparsable_marker:
  assumes "getAllBranches = Inr live"
    and "unsanitizeBranchName d \<notin> live"
    and "stat (store w) [branchesDir, d] = Inr n"
    and "readFile [branchesDir, d, deletionMarker] (store w) = Inr data"
    and "parseInt (trimSpace data) = None"
  shows "\<exists>w' m entries. cleanupDeletedBranches cfg getAllBranches now w = Inr w'
           \<and> stat (store w') [branchesDir, d] = stat (store w) [branchesDir, d]
           \<and> work w' = work w
           \<and> stat (store w) [branchesDir] = Inr (Dir m entries)
           \<and> (\<forall>entry \<in> set (readDir entries). fst entry \<noteq> d \<longrightarrow>
                 stat (store w') [branchesDir, fst entry]
                 = stat (cleanupEntry cfg live now (umask w) entry (store w))
                     [branchesDir, fst entry])"
proof -
  from assms(3) obtain m entries where b: "stat (store w) [branchesDir] = Inr (Dir m entries)"
    by (rule stat_branch_entry)
  let ?t' = "cleanupLoop cfg live now (umask w) (readDir entries) (store w)"
  have marker: "readFile [deletionMarker] (Some n) = Inr data"
    using readFile_below [OF assms(3), of "[deletionMarker]"] assms(4) by simp
  have same: "stat ?t' [branchesDir, d] = Inr n"
    using assms(2,3) marker assms(5) by (rule cleanupLoop_unparsable)
  have run: "cleanupDeletedBranches cfg getAllBranches now w = Inr (w\<lparr>store := ?t'\<rparr>)"
    using assms(1) b by (simp add: cleanupDeletedBranches_def)
  have others: "\<forall>entry \<in> set (readDir entries). fst entry \<noteq> d \<longrightarrow>
      stat ?t' [branchesDir, fst entry]
      = stat (cleanupEntry cfg live now (umask w) entry (store w)) [branchesDir, fst entry]"
  proof (intro ballI impI)
    fix entry assume mem: "entry \<in> set (readDir entries)"
    from b mem have "stat (store w) [branchesDir, fst entry] = Inr (snd entry)"
      by (rule stat_listed_entry)
    with readDir_distinct mem
    show "stat ?t' [branchesDir, fst entry]
          = stat (cleanupEntry cfg live now (umask w) entry (store w)) [branchesDir, fst entry]"
      by (rule cleanupLoop_entry)
  qed
  from run same others b assms(3) show ?thesis by simp
qed

theorem cleanup_unparsable_marker_witness:
  "\<exists>w'. cleanupDeletedBranches (loadConfig ''main'' ''main'') (Inr {''main''})
           retentionNow retentionWorld = Inr w'
        \<and> stat (store w') [branchesDir, ''broken'']
            = Inr (Dir 0x1ED [(''.deleted_at'', File 0x1A4 ''yesterday'')])
        \<and> work w' = work retentionWorld
        \<and> stat (store w') [branchesDir, ''topic''] = Inl ENOENT"
proof -
  let ?cfg = "loadConfig ''main'' ''main''"
  let ?topic = "(''topic'', Dir 0x1ED [(''CLAUDE.md'', File 0x1A4 ''topic notes''),
                                      (''.deleted_at'', File 0x1A4 ''1000'')])"
  have live: "unsanitizeBranchName ''broken'' \<notin> {''main''}" by code_simp
  have dir: "stat (store retentionWorld) [branchesDir, ''broken'']
             = Inr (Dir 0x1ED [(''.deleted_at'', File 0x1A4 ''yesterday'')])"
    by code_simp
  have marker: "readFile [branchesDir, ''broken'', deletionMarker] (store retentionWorld)
                = Inr ''yesterday''"
    by code_simp
  have bad: "parseInt (trimSpace ''yesterday'') = None" by code_simp
  from cleanup_unparsable_marker [OF refl live dir marker bad, of ?cfg retentionNow]
  obtain w' m entries where
    run: "cleanupDeletedBranches ?cfg (Inr {''main''}) retentionNow retentionWorld = Inr w'"
    and same: "stat (store w') [branchesDir, ''broken'']
               = stat (store retentionWorld) [branchesDir, ''broken'']"
    and wk: "work w' = work retentionWorld"
    and listing: "stat (store retentionWorld) [branchesDir] = Inr (Dir m entries)"
    and others: "\<forall>entry \<in> set (readDir entries). fst entry \<noteq> ''broken'' \<longrightarrow>
                   stat (store w') [branchesDir, fst entry]
                   = stat (cleanupEntry ?cfg {''main''} retentionNow (umask retentionWorld) entry
                        (store retentionWorld)) [branchesDir, fst entry]"
    by blast
  have "stat (store retentionWorld) [branchesDir]
        = Inr (Dir 0x1ED
            [(''topic'', Dir 0x1ED
                [(''CLAUDE.md'', File 0x1A4 ''topic notes''),
                 (''.deleted_at'', File 0x1A4 ''1000'')]),
             (''broken'', Dir 0x1ED
                [(''.deleted_at'', File 0x1A4 ''yesterday'')])])"
    by code_simp
  with listing have entries: "entries =
            [(''topic'', Dir 0x1ED
                [(''CLAUDE.md'', File 0x1A4 ''topic notes''),
                 (''.deleted_at'', File 0x1A4 ''1000'')]),
             (''broken'', Dir 0x1ED
                [(''.deleted_at'', File 0x1A4 ''yesterday'')])]"
    by simp
  have mem: "?topic \<in> set (readDir entries)"
    unfolding entries readDir_entry by simp
  have ne: "fst ?topic \<noteq> ''broken''" by simp
  have gone: "stat (cleanupEntry ?cfg {''main''} retentionNow (umask retentionWorld) ?topic
                (store retentionWorld)) [branchesDir, ''topic''] = Inl ENOENT"
    by code_simp
  from others [rule_format, OF mem ne] gone
  have "stat (store w') [branchesDir, ''topic''] = Inl ENOENT" by simp
  with run same wk dir show ?thesis by simp
qed

text \<open>
  C5 as the claim states it fails for the storage of the current branch: here the
  branch \<open>topic\<close> is checked out, it is not among the live branches, its marker is
  decades old, and the pass leaves the whole state as it is.
\<close>

theorem grace_period_counterexample:
  "unsanitizeBranchName ''topic'' \<notin> {''main''}
   \<and> readFile [branchesDir, ''topic'', deletionMarker] (store retentionWorld) = Inr ''1000''
   \<and> parseInt (trimSpace ''1000'') = Some 1000
   \<and> (unixOf retentionNow - 1000) * 1000000000 + nsec retentionNow > 604800 * 1000000000
   \<and> cleanupDeletedBranches (loadConfig ''topic'' ''main'') (Inr {''main''})
         retentionNow retentionWorld = Inr retentionWorld"
  by code_simp

text \<open>
  C5, amended. A directory of \<open>branches/\<close> whose branch is neither live nor the current
  branch and whose marker holds a timestamp \<open>ts\<close> that \<^verbatim>\<open>time.Unix\<close> represents
  (\<open>ts + unixToInternal\<close> fits 64 bits): the pass deletes the directory when the age of the
  marker, \<open>now - ts\<close> in nanoseconds, is more than 7 days (604800 seconds), and
  leaves it as it is when the age is 7 days or less.
\<close>

theorem cleanup_grace_period:
  assumes "getAllBranches = Inr live"
    and "unsanitizeBranchName d \<notin> live"
    and "unsanitizeBranchName d \<noteq> CurrentBranch cfg"
    and "stat (store w) [branchesDir, d] = Inr (Dir m es)"
    and "readFile [branchesDir, d, deletionMarker] (store w) = Inr data"
    and "parseInt (trimSpace data) = Some ts"
    and "ts + unixToInternal < 2 ^ 63"
  shows "\<exists>w'. cleanupDeletedBranches cfg getAllBranches now w = Inr w'
           \<and> (if (unixOf now - ts) * 1000000000 + nsec now > 604800 * 1000000000
               then stat (store w') [branchesDir, d] = Inl ENOENT
               else stat (store w') [branchesDir, d] = stat (store w) [branchesDir, d])"
proof -
  let ?n = "Dir m es"
  from assms(4) obtain bm entries where b: "stat (store w) [branchesDir] = Inr (Dir bm entries)"
    and mem: "map_of entries d = Some ?n"
    by (rule stat_branch_entry)
  have marker: "readFile [deletionMarker] (Some ?n) = Inr data"
    using readFile_below [OF assms(4), of "[deletionMarker]"] assms(5) by simp
  have lo: "- (2 ^ 63) \<le> ts" using parseInt_range [OF assms(6)] by simp
  note age = expired_iff [OF lo assms(7), of now]
  let ?t = "cleanupLoop cfg live now (umask w) (readDir entries) (store w)"
  have res: "cleanupDeletedBranches cfg getAllBranches now w = Inr (w\<lparr>store := ?t\<rparr>)"
    using assms(1) b by (simp add: cleanupDeletedBranches_def)
  show ?thesis
  proof (cases "timeSub now (timeUnix ts) > gracePeriod")
    case True
    have "(d, ?n) \<in> set (readDir entries)" using mem by (simp add: readDir_entry)
    with assms(2,3) marker assms(6) True assms(4)
    have "stat ?t [branchesDir, d] = Inl ENOENT"
      by (rule cleanupLoop_expired) simp
    with True age res show ?thesis by simp
  next
    case False
    with assms(2,4) marker assms(6)
    have "stat ?t [branchesDir, d] = Inr ?n"
      by (rule cleanupLoop_retained)
    with False age res assms(4) show ?thesis by simp
  qed
qed

theorem cleanup_grace_period_witness:
  "\<exists>w'. cleanupDeletedBranches (loadConfig ''main'' ''main'') (Inr {''main''})
           retentionNow retentionWorld = Inr w'
        \<and> stat (store w') [branchesDir, ''topic''] = Inl ENOENT"
proof -
  have live: "unsanitizeBranchName ''topic'' \<notin> {''main''}" by code_simp
  have cur: "unsanitizeBranchName ''topic'' \<noteq> CurrentBranch (loadConfig ''main'' ''main'')"
    by code_simp
  have dir: "stat (store retentionWorld) [branchesDir, ''topic'']
             = Inr (Dir 0x1ED [(''CLAUDE.md'', File 0x1A4 ''topic notes''),
                               (''.deleted_at'', File 0x1A4 ''1000'')])"
    by code_simp
  have marker: "readFile [branchesDir, ''topic'', deletionMarker] (store retentionWorld)
                = Inr ''1000''"
    by code_simp
  have ts: "parseInt (trimSpace ''1000'') = Some 1000" by code_simp
  have range: "(1000 :: int) + unixToInternal < 2 ^ 63" by (simp add: unixToInternal_def)
  have old: "(unixOf retentionNow - 1000) * 1000000000 + nsec retentionNow
             > 604800 * 1000000000"
    by (simp add: unixOf_def retentionNow_def unixToInternal_def)
  from cleanup_grace_period [OF refl live cur dir marker ts range, of retentionNow] old
  show ?thesis by simp
qed

section \<open>The run and the exit code of the wrapped program\<close>

text \<open>A session on the default branch: one stored file, an empty exclude file.\<close>

definition sessionWorld :: world where
  "sessionWorld =
     \<lparr>work = Some (Dir 0x1ED
         [(''.git'', Dir 0x1ED [(''info'', Dir 0x1ED [(''exclude'', File 0x1A4 [])])]),
          (''main.go'', File 0x1A4 ''package main'')]),
      store = Some (Dir 0x1ED [(''CLAUDE.md'', File 0x1A4 ''notes'')]),
      umask = 0x12\<rparr>"

definition sessionAfterIn :: world where
  "sessionAfterIn =
     \<lparr>work = Some (Dir 0x1ED
         [(''.git'', Dir 0x1ED
            [(''info'', Dir 0x1ED [(''exclude'', File 0x1A4 (''CLAUDE.md'' @ [CHR 0x0A]))])]),
          (''main.go'', File 0x1A4 ''package main''),
          (''CLAUDE.md'', File 0x1A4 ''notes'')]),
      store = Some (Dir 0x1ED [(''CLAUDE.md'', File 0x1A4 ''notes'')]),
      umask = 0x12\<rparr>"

text \<open>
  C8. When sync-in has succeeded and the wrapped program has ended with any exit code
  (zero or not), the run goes on with sync-out on the state the program left; when
  that succeeds, the retention pass runs on its result (an error of the pass is only
  logged) and \<open>run\<close> returns the program's exit code with no error.
\<close>

theorem run_reports_exit_code:
  assumes "syncIn cfg w = Inr w1"
    and "claude w1 = (Exit code, w2)"
    and "syncOut cfg w2 = Inr w3"
  shows "run (Inr cfg) claude getAllBranches now w
         = Ok code (case cleanupDeletedBranches cfg getAllBranches now w3 of
                      Inl e \<Rightarrow> w3 | Inr w4 \<Rightarrow> w4)"
  using assms by (simp add: run_def Let_def split: sum.splits)

theorem run_reports_exit_code_witness:
  "syncIn (loadConfig ''main'' ''main'') sessionWorld = Inr sessionAfterIn
   \<and> syncOut (loadConfig ''main'' ''main'') sessionAfterIn = Inr sessionAfterIn
   \<and> run (Inr (loadConfig ''main'' ''main'')) (\<lambda>w. (Exit 3, w)) (Inr {''main''})
         \<lparr>sec = 63835596800, nsec = 0\<rparr> sessionWorld
       = Ok 3 sessionAfterIn"
proof -
  have i: "syncIn (loadConfig ''main'' ''main'') sessionWorld = Inr sessionAfterIn"
    by code_simp
  have o: "syncOut (loadConfig ''main'' ''main'') sessionAfterIn = Inr sessionAfterIn"
    by code_simp
  have c: "cleanupDeletedBranches (loadConfig ''main'' ''main'') (Inr {''main''})
             \<lparr>sec = 63835596800, nsec = 0\<rparr> sessionAfterIn = Inr sessionAfterIn"
    by code_simp
  from run_reports_exit_code [OF i _ o, of "\<lambda>w. (Exit 3, w)" 3 "Inr {''main''}"
      "\<lparr>sec = 63835596800, nsec = 0\<rparr>"] i o c
  show ?thesis by simp
qed

section \<open>Repeated sync cycles\<close>

text \<open>One sync-in followed by one sync-out, with nothing in between.\<close>

definition syncCycle :: "Config \<Rightarrow> world \<Rightarrow> error + world" where
  "syncCycle cfg w = (case syncIn cfg w of Inl e \<Rightarrow> Inl e | Inr w1 \<Rightarrow> syncOut cfg w1)"

text \<open>
  The working tree of the example holds the directory \<open>.claude\<close> and an exclude file
  that lists it with a trailing slash (the form \<^verbatim>\<open>readExcludeFile\<close> accepts and
  strips); storage does not exist yet.
\<close>

definition cycleTree :: "string \<Rightarrow> node option" where
  "cycleTree excludeText =
     Some (Dir 0x1ED
       [(''.git'', Dir 0x1ED [(''info'', Dir 0x1ED [(''exclude'', File 0x1A4 excludeText)])]),
        (''.claude'', Dir 0x1ED [(''config.json'', File 0x1A4 ''{}'')])])"

definition cycleStored :: "node option" where
  "cycleStored = Some (Dir 0x1ED [(''.claude'', Dir 0x1ED [(''config.json'', File 0x1A4 ''{}'')])])"

definition cycleStart :: world where
  "cycleStart = \<lparr>work = cycleTree (''.claude/'' @ [CHR 0x0A]), store = None, umask = 0x12\<rparr>"

definition cycleOnce :: world where
  "cycleOnce = \<lparr>work = cycleTree (''.claude/'' @ [CHR 0x0A]), store = cycleStored, umask = 0x12\<rparr>"

definition cycleTwice :: world where
  "cycleTwice =
     \<lparr>work = cycleTree (''.claude/'' @ [CHR 0x0A] @ ''.claude'' @ [CHR 0x0A]),
      store = cycleStored, umask = 0x12\<rparr>"

text \<open>
  C3 fails on this state. The first cycle stores \<open>.claude\<close> and leaves the exclude file
  as it is. In the second cycle \<^verbatim>\<open>addToExclude\<close> compares the trimmed line
  \<open>.claude/\<close> with \<open>.claude\<close>, finds no match and appends a second line: the state
  after two cycles differs from the state after one, and the managed entry is now
  listed twice.
\<close>

theorem sync_cycle_not_idempotent:
  "syncCycle (loadConfig ''main'' ''main'') cycleStart = Inr cycleOnce
   \<and> syncCycle (loadConfig ''main'' ''main'') cycleOnce = Inr cycleTwice
   \<and> cycleTwice \<noteq> cycleOnce
   \<and> readExcludeFile (work cycleOnce) = Inr [''.claude'']
   \<and> readExcludeFile (work cycleTwice) = Inr [''.claude'', ''.claude'']"
  by code_simp

section \<open>Tree Copier: what a copy leaves at the destination\<close>

text \<open>
  \<open>kept n n'\<close>: the node \<open>n'\<close> holds what the node \<open>n\<close> held. A file is kept when
  \<open>n'\<close> is the same file, content and permission bits; a directory is kept when \<open>n'\<close> is
  a directory (its entries are nodes of their own, at longer paths).
\<close>

definition kept :: "node \<Rightarrow> node \<Rightarrow> bool" where
  "kept n n' = (if isDir n then isDir n' else n' = n)"

lemma kept_refl: "kept n n"
  by (simp add: kept_def)

lemma kept_trans: "kept a b \<Longrightarrow> kept b c \<Longrightarrow> kept a c"
  by (auto simp: kept_def split: if_splits)

lemma eachEntry_other:
  "eachEntry f es ds = Inr ds' \<Longrightarrow> n \<notin> fst ` set es \<Longrightarrow> map_of ds' n = map_of ds n"
proof (induction es arbitrary: ds)
  case Nil
  then show ?case by simp
next
  case (Cons a es)
  obtain k c where a: "a = (k, c)" by (cases a)
  from Cons.prems a obtain c' where c': "f c (map_of ds k) = Inr c'"
    and rest: "eachEntry f es (AList.update k c' ds) = Inr ds'"
    by (auto split: sum.splits)
  from Cons.prems(2) a have "n \<noteq> k" "n \<notin> fst ` set es" by auto
  with Cons.IH [OF rest] show ?case by (simp add: map_of_update_other)
qed

lemma eachEntry_entry:
  "distinct (map fst es) \<Longrightarrow> eachEntry f es ds = Inr ds' \<Longrightarrow> (n, c) \<in> set es
   \<Longrightarrow> \<exists>c'. f c (map_of ds n) = Inr c' \<and> map_of ds' n = Some c'"
proof (induction es arbitrary: ds)
  case Nil
  then show ?case by simp
next
  case (Cons a es)
  obtain k x where a: "a = (k, x)" by (cases a)
  from Cons.prems(2) a obtain x' where x': "f x (map_of ds k) = Inr x'"
    and rest: "eachEntry f es (AList.update k x' ds) = Inr ds'"
    by (auto split: sum.splits)
  from Cons.prems(1) a have fresh: "k \<notin> fst ` set es" and dist: "distinct (map fst es)"
    by auto
  show ?case
  proof (cases "(n, c) = (k, x)")
    case True
    have "map_of ds' k = map_of (AList.update k x' ds) k"
      using rest fresh by (rule eachEntry_other)
    with True x' show ?thesis by (simp add: AList.update_conv')
  next
    case False
    with Cons.prems(3) a have mem: "(n, c) \<in> set es" by auto
    with fresh have "n \<noteq> k" by force
    from Cons.IH [OF dist rest mem] obtain c' where
      "f c (map_of (AList.update k x' ds) n) = Inr c'" "map_of ds' n = Some c'"
      by blast
    with \<open>n \<noteq> k\<close> show ?thesis by (simp add: map_of_update_other)
  qed
qed

lemma copyTo_keeps_source:
  "copyTo um src dst = Inr res \<Longrightarrow> stat (Some src) p = Inr n
   \<Longrightarrow> \<exists>n'. stat (Some res) p = Inr n' \<and> kept n n'"
proof (induction um src dst arbitrary: res p n rule: copyTo.induct)
  case (1 um m c dst)
  then show ?case
    by (cases p) (auto simp: createFrom_def kept_def split: option.splits node.splits)
next
  case (2 um m es dst)
  from "2.prems"(1) obtain rm ds ds' where res: "res = Dir rm ds'"
    and loop: "eachEntry (copyTo um) (readDir es) ds = Inr ds'"
    by (auto split: option.splits node.splits sum.splits)
  have ih: "\<exists>n'. stat (Some r) q = Inr n' \<and> kept k n'"
    if "(x, c) \<in> set (readDir es)" "copyTo um c d = Inr r" "stat (Some c) q = Inr k"
    for x c d r q k
  proof (cases dst)
    case None
    with that "2.IH"(1) show ?thesis by blast
  next
    case (Some dn)
    with "2.prems"(1) obtain dm dds where "dn = Dir dm dds"
      by (cases dn) auto
    with Some that "2.IH"(2) show ?thesis by blast
  qed
  show ?case
  proof (cases p)
    case Nil
    with "2.prems"(2) res show ?thesis by (auto simp: kept_def)
  next
    case (Cons x q)
    with "2.prems"(2) obtain c where c: "map_of es x = Some c" and below: "stat (Some c) q = Inr n"
      by (cases "map_of es x") auto
    from c have mem: "(x, c) \<in> set (readDir es)" by (simp add: readDir_entry)
    from eachEntry_entry [OF readDir_distinct loop mem] obtain c' where
      c': "copyTo um c (map_of ds x) = Inr c'" "map_of ds' x = Some c'"
      by blast
    from ih [OF mem c'(1) below] c'(2) res Cons show ?thesis by simp
  qed
qed

lemma alterAt_at:
  "alterAt p f t = Inr t' \<Longrightarrow> \<exists>d r. f d = Inr r \<and> (\<forall>q. stat t' (p @ q) = stat r q)"
proof (induction p arbitrary: t t')
  case Nil
  then show ?case by auto
next
  case (Cons x p)
  from Cons.prems obtain m es r0 where t: "t = Some (Dir m es)"
    and r0: "alterAt p f (map_of es x) = Inr r0"
    and t': "t' = Some (Dir m (case r0 of None \<Rightarrow> AList.delete x es | Some c \<Rightarrow> AList.update x c es))"
    by (rule alterAt_Inr_cases)
  from Cons.IH [OF r0] obtain d r where "f d = Inr r" "\<forall>q. stat r0 (p @ q) = stat r q"
    by blast
  moreover have "stat t' ((x # p) @ q) = stat r0 (p @ q)" for q
    by (cases r0) (simp_all add: t' AList.update_conv' AList.delete_conv')
  ultimately show ?case by auto
qed

lemma alterAt_ancestor:
  "alterAt p f t = Inr t' \<Longrightarrow> strict_prefix q p \<Longrightarrow>
   \<exists>n n'. stat t q = Inr n \<and> isDir n \<and> stat t' q = Inr n' \<and> isDir n'"
proof (induction p arbitrary: t t' q)
  case Nil
  then show ?case by simp
next
  case (Cons x p)
  from Cons.prems(1) obtain m es r0 where t: "t = Some (Dir m es)"
    and r0: "alterAt p f (map_of es x) = Inr r0"
    and t': "t' = Some (Dir m (case r0 of None \<Rightarrow> AList.delete x es | Some c \<Rightarrow> AList.update x c es))"
    by (rule alterAt_Inr_cases)
  show ?case
  proof (cases q)
    case Nil
    then show ?thesis by (simp add: t t')
  next
    case (Cons y q')
    with Cons.prems(2) have y: "y = x" and sp: "strict_prefix q' p" by auto
    from Cons.IH [OF r0 sp] obtain n n' where
      "stat (map_of es x) q' = Inr n" "isDir n" "stat r0 q' = Inr n'" "isDir n'"
      by blast
    moreover have "stat t' (x # q') = stat r0 q'"
      by (cases r0) (simp_all add: t' AList.update_conv' AList.delete_conv')
    ultimately show ?thesis using Cons y t by auto
  qed
qed

lemma mkdirAll_keeps:
  "mkdirAll m p t = Inr t1 \<Longrightarrow> stat t q = Inr n \<Longrightarrow> \<exists>n'. stat (Some t1) q = Inr n' \<and> kept n n'"
proof (induction m p t arbitrary: t1 q n rule: mkdirAll.induct)
  case (1 m p fm c)
  then show ?case by simp
next
  case (2 m)
  then show ?case by simp
next
  case (3 m dm es)
  then show ?case by (auto simp: kept_refl)
next
  case (4 m x p)
  then show ?case by simp
next
  case (5 m x p dm es)
  from "5.prems"(1) obtain c where c: "mkdirAll m p (map_of es x) = Inr c"
    and t1: "t1 = Dir dm (AList.update x c es)"
    by (auto split: sum.splits)
  show ?case
  proof (cases q)
    case Nil
    with "5.prems"(2) t1 show ?thesis by (auto simp: kept_def)
  next
    case (Cons y q')
    show ?thesis
    proof (cases "y = x")
      case True
      with Cons "5.prems"(2) have "stat (map_of es x) q' = Inr n" by simp
      from "5.IH" [OF c this] True Cons t1 show ?thesis by (simp add: AList.update_conv')
    next
      case False
      with Cons "5.prems"(2) t1 show ?thesis
        by (auto simp: map_of_update_other kept_refl)
    qed
  qed
qed

lemma mkdirAll_other:
  "mkdirAll m p t = Inr t1 \<Longrightarrow> \<not> prefix q p \<Longrightarrow> stat (Some t1) q = stat t q"
proof (induction m p t arbitrary: t1 q rule: mkdirAll.induct)
  case (1 m p fm c)
  then show ?case by simp
next
  case (2 m)
  then show ?case by (cases q) auto
next
  case (3 m dm es)
  then show ?case by simp
next
  case (4 m x p)
  from "4.prems"(1) obtain c where c: "mkdirAll m p None = Inr c" and t1: "t1 = Dir m [(x, c)]"
    by (auto split: sum.splits)
  from "4.prems"(2) obtain y q' where q: "q = y # q'" by (cases q) auto
  show ?case
  proof (cases "y = x")
    case True
    with q "4.prems"(2) have "\<not> prefix q' p" by simp
    from "4.IH" [OF c this] True q t1 show ?thesis by simp
  next
    case False
    with q t1 show ?thesis by simp
  qed
next
  case (5 m x p dm es)
  from "5.prems"(1) obtain c where c: "mkdirAll m p (map_of es x) = Inr c"
    and t1: "t1 = Dir dm (AList.update x c es)"
    by (auto split: sum.splits)
  from "5.prems"(2) obtain y q' where q: "q = y # q'" by (cases q) auto
  show ?case
  proof (cases "y = x")
    case True
    with q "5.prems"(2) have "\<not> prefix q' p" by simp
    from "5.IH" [OF c this] True q t1 show ?thesis by (simp add: AList.update_conv')
  next
    case False
    with q t1 show ?thesis by (simp add: map_of_update_other)
  qed
qed

lemma mkdirAll_is_dir: "mkdirAll m p t = Inr t1 \<Longrightarrow> \<exists>n. stat (Some t1) p = Inr n \<and> isDir n"
proof (induction m p t arbitrary: t1 rule: mkdirAll.induct)
  case (1 m p fm c)
  then show ?case by simp
next
  case (2 m)
  then show ?case by auto
next
  case (3 m dm es)
  then show ?case by auto
next
  case (4 m x p)
  then show ?case by (auto split: sum.splits)
next
  case (5 m x p dm es)
  then show ?case by (auto simp: AList.update_conv' split: sum.splits)
qed

lemma copyPath_cases:
  assumes "copyPath um s src dst t = Inr t'"
  obtains (regular) m c where "stat s src = Inr (File m c)"
      "alterAt dst (\<lambda>d. case copyTo um (File m c) d of Inl e \<Rightarrow> Inl e | Inr n \<Rightarrow> Inr (Some n)) t = Inr t'"
    | (directory) m es t1 where "stat s src = Inr (Dir m es)" "mkdirAll (masked um m) dst t = Inr t1"
      "alterAt dst (\<lambda>d. case copyTo um (Dir m es) d of Inl e \<Rightarrow> Inl e | Inr n \<Rightarrow> Inr (Some n))
         (Some t1) = Inr t'"
proof -
  from assms obtain sn where sn: "stat s src = Inr sn"
    by (cases "stat s src") (auto simp: copyPath_def)
  show ?thesis
  proof (cases sn)
    case (File m c)
    with assms sn regular show ?thesis
      by (simp add: copyPath_def copyFile_def)
  next
    case (Dir m es)
    with assms sn obtain t1 where "mkdirAll (masked um m) dst t = Inr t1"
      "alterAt dst (\<lambda>d. case copyTo um (Dir m es) d of Inl e \<Rightarrow> Inl e | Inr n \<Rightarrow> Inr (Some n))
         (Some t1) = Inr t'"
      by (auto simp: copyPath_def copyDir_def split: sum.splits)
    with Dir sn directory show ?thesis by blast
  qed
qed

lemma alterAt_copyTo:
  assumes "alterAt dst (\<lambda>d. case copyTo um sn d of Inl e \<Rightarrow> Inl e | Inr n \<Rightarrow> Inr (Some n)) t = Inr t'"
    and "stat (Some sn) p = Inr n"
  shows "\<exists>n'. stat t' (dst @ p) = Inr n' \<and> kept n n'"
proof -
  from alterAt_at [OF assms(1)] obtain d r where
    r: "(case copyTo um sn d of Inl e \<Rightarrow> Inl e | Inr n \<Rightarrow> Inr (Some n)) = Inr r"
    and at: "\<forall>q. stat t' (dst @ q) = stat r q"
    by blast
  from r obtain res where res: "copyTo um sn d = Inr res" "r = Some res"
    by (cases "copyTo um sn d") auto
  from copyTo_keeps_source [OF res(1) assms(2)] at res(2) show ?thesis by simp
qed

lemma copyPath_copies:
  assumes "copyPath um s src dst t = Inr t'" and "stat s (src @ p) = Inr n"
  shows "\<exists>n'. stat t' (dst @ p) = Inr n' \<and> kept n n'"
  using assms(1)
proof (cases rule: copyPath_cases)
  case (regular m c)
  from stat_append [OF regular(1), of p] assms(2) have "stat (Some (File m c)) p = Inr n" by simp
  with regular(2) show ?thesis by (rule alterAt_copyTo)
next
  case (directory m es t1)
  from stat_append [OF directory(1), of p] assms(2) have "stat (Some (Dir m es)) p = Inr n" by simp
  with directory(3) show ?thesis by (rule alterAt_copyTo)
qed

lemma copyPath_other:
  assumes "copyPath um s src dst t = Inr t'" and "\<not> prefix dst q" and "\<not> prefix q dst"
  shows "stat t' q = stat t q"
  using assms(1)
proof (cases rule: copyPath_cases)
  case (regular m c)
  from regular(2) assms(2,3) show ?thesis by (rule stat_alterAt_other)
next
  case (directory m es t1)
  from directory(3) assms(2,3) have "stat t' q = stat (Some t1) q" by (rule stat_alterAt_other)
  also from directory(2) assms(3) have "\<dots> = stat t q" by (rule mkdirAll_other)
  finally show ?thesis .
qed

lemma copyPath_keeps:
  assumes "copyPath um s src dst t = Inr t'" and "\<not> prefix dst q" and "stat t q = Inr n"
  shows "\<exists>n'. stat t' q = Inr n' \<and> kept n n'"
proof (cases "prefix q dst")
  case False
  with assms copyPath_other [OF assms(1,2)] show ?thesis by (simp add: kept_refl)
next
  case True
  with assms(2) have sp: "strict_prefix q dst" by (auto simp: strict_prefix_def)
  from assms(1) show ?thesis
  proof (cases rule: copyPath_cases)
    case (regular m c)
    from alterAt_ancestor [OF regular(2) sp] assms(3) show ?thesis by (auto simp: kept_def)
  next
    case (directory m es t1)
    from mkdirAll_keeps [OF directory(2) assms(3)] obtain n1 where
      n1: "stat (Some t1) q = Inr n1" "kept n n1" by blast
    from alterAt_ancestor [OF directory(3) sp] n1 show ?thesis by (auto simp: kept_def split: if_splits)
  qed
qed

lemma mkdirAll_fresh:
  "mkdirAll m p t = Inr t1 \<Longrightarrow> stat t p = Inl e \<Longrightarrow> stat (Some t1) (p @ y # q) = Inl ENOENT"
proof (induction m p t arbitrary: t1 rule: mkdirAll.induct)
  case (1 m p fm c)
  then show ?case by simp
next
  case (2 m)
  then show ?case by auto
next
  case (3 m dm es)
  then show ?case by simp
next
  case (4 m x p)
  then show ?case by (auto split: sum.splits)
next
  case (5 m x p dm es)
  then show ?case by (auto simp: AList.update_conv' split: sum.splits)
qed

lemma listDir_mem:
  assumes "listDir t p = Inr names" and "stat t (p @ x # q) = Inr n"
  shows "x \<in> set names"
proof -
  have "stat t p \<noteq> Inl e" for e
    using stat_append_Inl [of t p e "x # q"] assms(2) by auto
  then obtain pn where pn: "stat t p = Inr pn"
    by (cases "stat t p") auto
  from stat_append [OF pn, of "x # q"] assms(2) have below: "stat (Some pn) (x # q) = Inr n"
    by simp
  then obtain m es where d: "pn = Dir m es" by (cases pn) auto
  with below obtain c where "map_of es x = Some c" by (cases "map_of es x") auto
  then have "(x, c) \<in> set (readDir es)" by (simp add: readDir_entry)
  then have "x \<in> set (map fst (readDir es))" by force
  moreover from assms(1) pn d have "names = map fst (readDir es)" by (simp add: listDir_def)
  ultimately show ?thesis by simp
qed

lemma listDir_names:
  assumes "listDir t p = Inr names" and "x \<in> set names"
  shows "\<exists>n. stat t (p @ [x]) = Inr n"
proof -
  from assms obtain m es where pn: "stat t p = Inr (Dir m es)" and names: "names = map fst (readDir es)"
    by (auto simp: listDir_def split: sum.splits node.splits if_splits)
  from assms(2) names obtain c where "(x, c) \<in> set (readDir es)" by auto
  then have "map_of es x = Some c" by (simp add: readDir_entry)
  with stat_append [OF pn, of "[x]"] show ?thesis by simp
qed

section \<open>Storage Resolver: initialization\<close>

lemma exists_root: "exists (Some t) []"
  by (simp add: exists_def)

lemma initializeLoop_base:
  "initializeLoop um [branchesDir, d] xs t = Inr t' \<Longrightarrow> x \<noteq> branchesDir
   \<Longrightarrow> stat t' (x # p) = stat t (x # p)"
proof (induction xs arbitrary: t)
  case Nil
  then show ?case by simp
next
  case (Cons a xs)
  show ?case
  proof (cases "a = branchesDir \<or> a = deletionMarker")
    case True
    with Cons show ?thesis by auto
  next
    case False
    with Cons.prems(1) obtain t1 where
      t1: "copyPath um t [a] ([branchesDir, d] @ [a]) t = Inr t1"
      and rest: "initializeLoop um [branchesDir, d] xs t1 = Inr t'"
      by (auto split: sum.splits)
    from t1 have "stat t1 (x # p) = stat t (x # p)"
      using Cons.prems(2) by (intro copyPath_other) auto
    with Cons.IH [OF rest Cons.prems(2)] show ?thesis by simp
  qed
qed

lemma initializeLoop_others:
  "initializeLoop um [branchesDir, d] xs t = Inr t'
   \<Longrightarrow> y \<notin> set xs \<or> y = branchesDir \<or> y = deletionMarker
   \<Longrightarrow> stat t' ([branchesDir, d] @ y # q) = stat t ([branchesDir, d] @ y # q)"
proof (induction xs arbitrary: t)
  case Nil
  then show ?case by simp
next
  case (Cons a xs)
  show ?case
  proof (cases "a = branchesDir \<or> a = deletionMarker")
    case True
    with Cons show ?thesis by auto
  next
    case False
    with Cons.prems(1) obtain t1 where
      t1: "copyPath um t [a] ([branchesDir, d] @ [a]) t = Inr t1"
      and rest: "initializeLoop um [branchesDir, d] xs t1 = Inr t'"
      by (auto split: sum.splits)
    from False Cons.prems(2) have ne: "y \<noteq> a" by auto
    from t1 have "stat t1 ([branchesDir, d] @ y # q) = stat t ([branchesDir, d] @ y # q)"
      using ne by (intro copyPath_other) auto
    moreover from Cons.prems(2) have "y \<notin> set xs \<or> y = branchesDir \<or> y = deletionMarker"
      by auto
    ultimately show ?thesis using Cons.IH [OF rest] by simp
  qed
qed

lemma initializeLoop_copies:
  "initializeLoop um [branchesDir, d] xs t = Inr t' \<Longrightarrow> x \<in> set xs
   \<Longrightarrow> x \<noteq> branchesDir \<Longrightarrow> x \<noteq> deletionMarker \<Longrightarrow> stat t (x # p) = Inr n
   \<Longrightarrow> \<exists>n'. stat t' ([branchesDir, d] @ x # p) = Inr n' \<and> kept n n'"
proof (induction xs arbitrary: t)
  case Nil
  then show ?case by simp
next
  case (Cons a xs)
  show ?case
  proof (cases "a = branchesDir \<or> a = deletionMarker")
    case True
    with Cons.prems have "initializeLoop um [branchesDir, d] xs t = Inr t'" "x \<in> set xs"
      by auto
    then show ?thesis using Cons.prems(3-5) by (rule Cons.IH)
  next
    case False
    with Cons.prems(1) obtain t1 where
      t1: "copyPath um t [a] ([branchesDir, d] @ [a]) t = Inr t1"
      and rest: "initializeLoop um [branchesDir, d] xs t1 = Inr t'"
      by (auto split: sum.splits)
    have src: "stat t1 (x # p) = Inr n"
      using copyPath_other [OF t1, of "x # p"] Cons.prems(3,5) by auto
    show ?thesis
    proof (cases "x \<in> set xs")
      case True
      with rest show ?thesis using Cons.prems(3,4) src by (rule Cons.IH)
    next
      case False
      with Cons.prems(2) have xa: "x = a" by simp
      from copyPath_copies [OF t1, of p n] Cons.prems(5) xa obtain n' where
        n': "stat t1 ([branchesDir, d] @ x # p) = Inr n'" "kept n n'"
        by auto
      from initializeLoop_others [OF rest, of x p] False n' show ?thesis by auto
    qed
  qed
qed

text \<open>
  The storage of a repository with two branches, before and after the first session on
  the branch \<open>feature/x\<close>.
\<close>

definition branchWorld :: world where
  "branchWorld =
     \<lparr>work = Some (Dir 0x1ED []),
      store = Some (Dir 0x1ED
        [(''CLAUDE.md'', File 0x1A4 ''default config''),
         (''.deleted_at'', File 0x1A4 ''17''),
         (''notes'', Dir 0x1C0 [(''branches'', File 0x180 ''a list'')]),
         (''branches'', Dir 0x1ED
            [(''other'', Dir 0x1ED [(''CLAUDE.md'', File 0x1A4 ''other config'')])])]),
      umask = 0x12\<rparr>"

definition branchWorldAfter :: world where
  "branchWorldAfter =
     \<lparr>work = Some (Dir 0x1ED []),
      store = Some (Dir 0x1ED
        [(''CLAUDE.md'', File 0x1A4 ''default config''),
         (''.deleted_at'', File 0x1A4 ''17''),
         (''notes'', Dir 0x1C0 [(''branches'', File 0x180 ''a list'')]),
         (''branches'', Dir 0x1ED
            [(''other'', Dir 0x1ED [(''CLAUDE.md'', File 0x1A4 ''other config'')]),
             (''feature%2Fx'', Dir 0x1ED
                [(''CLAUDE.md'', File 0x1A4 ''default config''),
                 (''notes'', Dir 0x1C0 [(''branches'', File 0x180 ''a list'')])])])]),
      umask = 0x12\<rparr>"

text \<open>
  C9. Initialization returns the state as it is when the current branch is the default
  branch or the storage location exists. Otherwise (the location being
  \<open>branches/<name>\<close>, as \<open>loadConfig\<close> computes it) a successful initialization leaves
  the working tree alone and makes the location a directory; every node below an entry
  of the storage root other than \<open>branches\<close> and the deletion marker is kept at the same
  relative path below the location; nothing else is below the location (no \<open>branches\<close>,
  no marker, only names the root has); and the entries of the root other than
  \<open>branches\<close> are what they were.
\<close>

theorem initialize_branch_storage:
  "(CurrentBranch cfg = DefaultBranch cfg \<or> exists (store w) (StoreLocation cfg)
      \<longrightarrow> initializeBranchStorage cfg w = Inr w)
   \<and> (CurrentBranch cfg \<noteq> DefaultBranch cfg \<and> \<not> exists (store w) (StoreLocation cfg)
        \<and> StoreLocation cfg = [branchesDir, d] \<and> initializeBranchStorage cfg w = Inr w'
      \<longrightarrow> work w' = work w
          \<and> (\<exists>n. stat (store w') (StoreLocation cfg) = Inr n \<and> isDir n)
          \<and> (\<forall>x p n. x \<noteq> branchesDir \<and> x \<noteq> deletionMarker \<and> stat (store w) (x # p) = Inr n
                \<longrightarrow> (\<exists>n'. stat (store w') (StoreLocation cfg @ x # p) = Inr n' \<and> kept n n'))
          \<and> (\<forall>y q n. stat (store w') (StoreLocation cfg @ y # q) = Inr n
                \<longrightarrow> y \<noteq> branchesDir \<and> y \<noteq> deletionMarker \<and> exists (store w) [y])
          \<and> (\<forall>x p. x \<noteq> branchesDir \<longrightarrow> stat (store w') (x # p) = stat (store w) (x # p)))"
proof (intro conjI impI)
  assume "CurrentBranch cfg = DefaultBranch cfg \<or> exists (store w) (StoreLocation cfg)"
  then show "initializeBranchStorage cfg w = Inr w"
    by (auto simp: initializeBranchStorage_def)
next
  assume a: "CurrentBranch cfg \<noteq> DefaultBranch cfg \<and> \<not> exists (store w) (StoreLocation cfg)
        \<and> StoreLocation cfg = [branchesDir, d] \<and> initializeBranchStorage cfg w = Inr w'"
  let ?loc = "[branchesDir, d]"
  from a have loc: "StoreLocation cfg = ?loc" and fresh: "\<not> exists (store w) ?loc"
    and cur: "CurrentBranch cfg \<noteq> DefaultBranch cfg"
    and run: "initializeBranchStorage cfg w = Inr w'" by auto
  from run cur fresh loc have unfolded:
    "(case mkdirAll (masked (umask w) 0x1ED) ?loc (store w) of
        Inl e \<Rightarrow> Inl e
      | Inr t \<Rightarrow>
          (case listDir (Some t) [] of
             Inl e \<Rightarrow> Inl e
           | Inr items \<Rightarrow>
               (case initializeLoop (umask w) ?loc items (Some t) of
                  Inl e \<Rightarrow> Inl e
                | Inr t' \<Rightarrow> Inr (w\<lparr>store := t'\<rparr>)))) = Inr w'"
    by (simp add: initializeBranchStorage_def exists_root cong: sum.case_cong)
  then obtain t0 where mk: "mkdirAll (masked (umask w) 0x1ED) ?loc (store w) = Inr t0"
    by (cases "mkdirAll (masked (umask w) 0x1ED) ?loc (store w)") auto
  with unfolded obtain items where ls: "listDir (Some t0) [] = Inr items"
    by (cases "listDir (Some t0) []") auto
  with unfolded mk obtain t' where
    lp: "initializeLoop (umask w) ?loc items (Some t0) = Inr t'" and w': "w' = w\<lparr>store := t'\<rparr>"
    by (cases "initializeLoop (umask w) ?loc items (Some t0)") auto
  from fresh obtain e where missing: "stat (store w) ?loc = Inl e"
    by (cases "stat (store w) ?loc") (auto simp: exists_def)
  have base0: "stat (Some t0) (x # p) = stat (store w) (x # p)" if "x \<noteq> branchesDir" for x p
    using mk that by (intro mkdirAll_other) auto
  have base: "stat t' (x # p) = stat (store w) (x # p)" if "x \<noteq> branchesDir" for x p
    using initializeLoop_base [OF lp that, of p] base0 [OF that, of p] by simp
  show "work w' = work w" by (simp add: w')
  show "\<exists>n. stat (store w') (StoreLocation cfg) = Inr n \<and> isDir n"
  proof -
    from mkdirAll_is_dir [OF mk] obtain n0 where n0: "stat (Some t0) ?loc = Inr n0" "isDir n0"
      by blast
    have "\<exists>n. stat ts ?loc = Inr n \<and> isDir n"
      if "initializeLoop (umask w) ?loc xs s = Inr ts" "stat s ?loc = Inr k" "isDir k"
      for xs s ts k
      using that
    proof (induction xs arbitrary: s k)
      case Nil
      then show ?case by auto
    next
      case (Cons a xs)
      show ?case
      proof (cases "a = branchesDir \<or> a = deletionMarker")
        case True
        with Cons show ?thesis by auto
      next
        case False
        with Cons.prems(1) obtain s1 where
          s1: "copyPath (umask w) s [a] (?loc @ [a]) s = Inr s1"
          and rest: "initializeLoop (umask w) ?loc xs s1 = Inr ts"
          by (auto split: sum.splits)
        from copyPath_keeps [OF s1 _ Cons.prems(2)] obtain k' where
          "stat s1 ?loc = Inr k'" "kept k k'" by auto
        with Cons.prems(3) have "stat s1 ?loc = Inr k'" "isDir k'" by (auto simp: kept_def)
        with rest show ?thesis by (rule Cons.IH)
      qed
    qed
    from this [OF lp n0] show ?thesis by (simp add: w' loc)
  qed
  show "\<forall>x p n. x \<noteq> branchesDir \<and> x \<noteq> deletionMarker \<and> stat (store w) (x # p) = Inr n
          \<longrightarrow> (\<exists>n'. stat (store w') (StoreLocation cfg @ x # p) = Inr n' \<and> kept n n')"
  proof (intro allI impI)
    fix x p n
    assume h: "x \<noteq> branchesDir \<and> x \<noteq> deletionMarker \<and> stat (store w) (x # p) = Inr n"
    then have s0: "stat (Some t0) ([] @ x # p) = Inr n" using base0 [of x p] by simp
    from listDir_mem [OF ls s0] have "x \<in> set items" .
    with lp have "\<exists>n'. stat t' (?loc @ x # p) = Inr n' \<and> kept n n'"
      using h s0 by (intro initializeLoop_copies) auto
    then show "\<exists>n'. stat (store w') (StoreLocation cfg @ x # p) = Inr n' \<and> kept n n'"
      by (simp add: w' loc)
  qed
  show "\<forall>y q n. stat (store w') (StoreLocation cfg @ y # q) = Inr n
          \<longrightarrow> y \<noteq> branchesDir \<and> y \<noteq> deletionMarker \<and> exists (store w) [y]"
  proof (intro allI impI)
    fix y q n
    assume h: "stat (store w') (StoreLocation cfg @ y # q) = Inr n"
    have gone: "stat (Some t0) (?loc @ y # q) = Inl ENOENT"
      using mk missing by (rule mkdirAll_fresh)
    have listed: "y \<in> set items \<and> y \<noteq> branchesDir \<and> y \<noteq> deletionMarker"
    proof (rule ccontr)
      assume "\<not> (y \<in> set items \<and> y \<noteq> branchesDir \<and> y \<noteq> deletionMarker)"
      then have "y \<notin> set items \<or> y = branchesDir \<or> y = deletionMarker" by auto
      from initializeLoop_others [OF lp this, of q] gone h show False by (simp add: w' loc)
    qed
    then obtain k where "stat (Some t0) ([] @ [y]) = Inr k"
      using listDir_names [OF ls, of y] by auto
    with listed base0 [of y "[]"] have "exists (store w) [y]" by (simp add: exists_def)
    with listed show "y \<noteq> branchesDir \<and> y \<noteq> deletionMarker \<and> exists (store w) [y]" by simp
  qed
  show "\<forall>x p. x \<noteq> branchesDir \<longrightarrow> stat (store w') (x # p) = stat (store w) (x # p)"
    using base by (simp add: w')
qed

theorem initialize_branch_storage_witness:
  "initializeBranchStorage (loadConfig ''main'' ''main'') branchWorld = Inr branchWorld
   \<and> initializeBranchStorage (loadConfig ''feature/x'' ''main'') branchWorld = Inr branchWorldAfter
   \<and> (\<exists>n'. stat (store branchWorldAfter) [branchesDir, ''feature%2Fx'', ''CLAUDE.md''] = Inr n'
          \<and> kept (File 0x1A4 ''default config'') n')
   \<and> initializeBranchStorage (loadConfig ''feature/x'' ''main'') branchWorldAfter
       = Inr branchWorldAfter"
proof -
  let ?cfg = "loadConfig ''feature/x'' ''main''"
  note inst = initialize_branch_storage [of ?cfg branchWorld "''feature%2Fx''" branchWorldAfter]
  have same: "CurrentBranch (loadConfig ''main'' ''main'') = DefaultBranch (loadConfig ''main'' ''main'')"
    by code_simp
  have cur: "CurrentBranch ?cfg \<noteq> DefaultBranch ?cfg" by code_simp
  have fresh: "\<not> exists (store branchWorld) (StoreLocation ?cfg)" by code_simp
  have loc: "StoreLocation ?cfg = [branchesDir, ''feature%2Fx'']" by code_simp
  have run: "initializeBranchStorage ?cfg branchWorld = Inr branchWorldAfter" by code_simp
  have src: "''CLAUDE.md'' \<noteq> branchesDir \<and> ''CLAUDE.md'' \<noteq> deletionMarker
             \<and> stat (store branchWorld) [''CLAUDE.md''] = Inr (File 0x1A4 ''default config'')"
    by code_simp
  have there: "exists (store branchWorldAfter) (StoreLocation ?cfg)" by code_simp
  from inst cur fresh loc run src
  have copied: "\<exists>n'. stat (store branchWorldAfter) (StoreLocation ?cfg @ [''CLAUDE.md'']) = Inr n'
          \<and> kept (File 0x1A4 ''default config'') n'"
    by blast
  have noop1: "initializeBranchStorage (loadConfig ''main'' ''main'') branchWorld = Inr branchWorld"
    using initialize_branch_storage [of "loadConfig ''main'' ''main''" branchWorld] same by blast
  have noop2: "initializeBranchStorage ?cfg branchWorldAfter = Inr branchWorldAfter"
    using initialize_branch_storage [of ?cfg branchWorldAfter] there by blast
  from copied loc run noop1 noop2 show ?thesis by simp
qed

section \<open>Exclude List Manager: adding an entry\<close>

text \<open>What a path holds, the reason for a failure of \<^verbatim>\<open>os.Stat\<close> left out.\<close>

definition nodeAt :: "node option \<Rightarrow> path \<Rightarrow> node option" where
  "nodeAt t p = (case stat t p of Inl e \<Rightarrow> None | Inr n \<Rightarrow> Some n)"

lemma alterAt_result:
  "alterAt p f t = Inr t' \<Longrightarrow> \<exists>r. f (nodeAt t p) = Inr r \<and> (\<forall>q. stat t' (p @ q) = stat r q)"
proof (induction p arbitrary: t t')
  case Nil
  then show ?case by (cases t) (auto simp: nodeAt_def)
next
  case (Cons x p)
  from Cons.prems obtain m es r0 where t: "t = Some (Dir m es)"
    and r0: "alterAt p f (map_of es x) = Inr r0"
    and t': "t' = Some (Dir m (case r0 of None \<Rightarrow> AList.delete x es | Some c \<Rightarrow> AList.update x c es))"
    by (rule alterAt_Inr_cases)
  from Cons.IH [OF r0] obtain r where
    "f (nodeAt (map_of es x) p) = Inr r" "\<forall>q. stat r0 (p @ q) = stat r q"
    by blast
  moreover have "stat t' ((x # p) @ q) = stat r0 (p @ q)" for q
    by (cases r0) (simp_all add: t' AList.update_conv' AList.delete_conv')
  moreover have "nodeAt t (x # p) = nodeAt (map_of es x) p" by (simp add: nodeAt_def t)
  ultimately show ?case by auto
qed

lemma appendFile_keeps:
  assumes "appendFile p data perm t = Inr t'" and "stat t q = Inr n" and "q \<noteq> p"
  shows "\<exists>n'. stat t' q = Inr n' \<and> kept n n'"
proof -
  let ?f = "\<lambda>d. case d of
                      None \<Rightarrow> Inr (Some (File perm data))
                    | Some (File m c) \<Rightarrow> Inr (Some (File m (c @ data)))
                    | Some (Dir m es) \<Rightarrow> Inl EISDIR"
  from assms(1) have alt: "alterAt p ?f t = Inr t'" by (simp add: appendFile_def)
  consider "strict_prefix q p" | "strict_prefix p q" | "\<not> prefix p q" "\<not> prefix q p"
    using assms(3) by (auto simp: strict_prefix_def)
  then show ?thesis
  proof cases
    case 1
    from alterAt_ancestor [OF alt 1] assms(2) show ?thesis by (auto simp: kept_def)
  next
    case 2
    then obtain r where q: "q = p @ r" "r \<noteq> []" by (auto simp: strict_prefix_def prefix_def)
    have "stat t p \<noteq> Inl e" for e
      using stat_append_Inl [of t p e r] assms(2) q by auto
    then obtain pn where pn: "stat t p = Inr pn" by (cases "stat t p") auto
    from stat_append [OF pn, of r] assms(2) q have "stat (Some pn) r = Inr n" by simp
    with q(2) obtain m es where "pn = Dir m es" by (cases pn; cases r) auto
    with pn have "?f (nodeAt t p) = Inl EISDIR" by (simp add: nodeAt_def)
    with alterAt_result [OF alt] show ?thesis by auto
  next
    case 3
    from stat_alterAt_other [OF alt 3] assms(2) show ?thesis by (simp add: kept_refl)
  qed
qed

lemma appendFile_content:
  assumes "appendFile p data perm t = Inr t'"
  shows "\<exists>m c. stat t' p = Inr (File m c) \<and> suffix data c
               \<and> (\<forall>m0 c0. stat t p = Inr (File m0 c0) \<longrightarrow> c = c0 @ data)"
proof -
  let ?f = "\<lambda>d. case d of
                      None \<Rightarrow> Inr (Some (File perm data))
                    | Some (File m c) \<Rightarrow> Inr (Some (File m (c @ data)))
                    | Some (Dir m es) \<Rightarrow> Inl EISDIR"
  from assms(1) have alt: "alterAt p ?f t = Inr t'" by (simp add: appendFile_def)
  from alterAt_result [OF alt] obtain r where r: "?f (nodeAt t p) = Inr r" "stat t' (p @ []) = stat r []"
    by blast
  show ?thesis
  proof (cases "stat t p")
    case (Inl e)
    with r show ?thesis by (auto simp: nodeAt_def)
  next
    case (Inr n)
    with r show ?thesis by (cases n) (auto simp: nodeAt_def suffix_def)
  qed
qed

subsection \<open>Lines and their trimmed form are pieces of the text\<close>

lemma sublist_trans: "sublist a b \<Longrightarrow> sublist b c \<Longrightarrow> sublist a c"
proof -
  assume "sublist a b" "sublist b c"
  then obtain p1 s1 p2 s2 where "b = p1 @ a @ s1" "c = p2 @ b @ s2"
    by (auto simp: sublist_def)
  then have "c = (p2 @ p1) @ a @ (s1 @ s2)" by simp
  then show ?thesis unfolding sublist_def by blast
qed

lemma stripRunes_suffix: "suffix (stripRunes ws s) s"
proof (induction ws s rule: stripRunes.induct)
  case (1 ws s)
  show ?case
  proof (cases "leadingRune ws s = 0")
    case True
    then show ?thesis by simp
  next
    case False
    with 1 have "suffix (stripRunes ws (drop (leadingRune ws s) s)) (drop (leadingRune ws s) s)"
      by simp
    then have "suffix (stripRunes ws (drop (leadingRune ws s) s)) s"
      using suffix_drop suffix_order.trans by blast
    with False show ?thesis by (subst stripRunes.simps) simp
  qed
qed

lemma trimSpace_sublist: "sublist (trimSpace s) s"
proof -
  let ?a = "stripRunes spaceSeqs s"
  have "suffix (stripRunes (map rev spaceSeqs) (rev ?a)) (rev ?a)" by (rule stripRunes_suffix)
  then have "prefix (trimSpace s) ?a"
    by (simp add: trimSpace_def suffix_to_prefix)
  moreover have "suffix ?a s" by (rule stripRunes_suffix)
  ultimately show ?thesis
    by (meson prefix_imp_sublist suffix_imp_sublist sublist_trans)
qed

lemma splitOn_pieces:
  "splitOn d s = l # ls \<Longrightarrow> prefix l s \<and> (\<forall>x \<in> set ls. sublist x s)"
proof (induction s arbitrary: l ls)
  case Nil
  then show ?case by simp
next
  case (Cons a s)
  obtain l' ls' where sp: "splitOn d s = l' # ls'"
    by (cases "splitOn d s") (auto, cases s, auto split: if_splits list.splits)
  from Cons.IH [OF sp] have ih: "prefix l' s" "\<forall>x \<in> set ls'. sublist x s" by auto
  show ?case
  proof (cases "a = d")
    case True
    with Cons.prems sp have "l = []" "ls = l' # ls'" by auto
    with ih show ?thesis
      by (auto simp: sublist_Cons_right)
  next
    case False
    with Cons.prems sp have "l = a # l'" "ls = ls'" by auto
    with ih show ?thesis by (auto simp: sublist_Cons_right)
  qed
qed

lemma splitOn_sublist: "x \<in> set (splitOn d s) \<Longrightarrow> sublist x s"
proof -
  assume x: "x \<in> set (splitOn d s)"
  then obtain l ls where sp: "splitOn d s = l # ls" by (cases "splitOn d s") auto
  from splitOn_pieces [OF sp] x sp show ?thesis by (auto intro: prefix_imp_sublist)
qed

lemma scanLines_sublist:
  assumes "l \<in> set (fst (scanLines c))"
  shows "sublist l c"
proof -
  from assms obtain r where r: "r \<in> set (rawLines c)" and l: "l = dropCR r"
    by (auto simp: scanLines_def Let_def dest: set_takeWhileD)
  from r have "r \<in> set (splitOn (CHR 0x0A) c)"
    by (auto simp: rawLines_def Let_def dest: in_set_butlastD split: if_splits)
  then have "sublist r c" by (rule splitOn_sublist)
  moreover have "prefix l r" by (auto simp: l dropCR_def intro: prefixeq_butlast)
  ultimately show ?thesis
    by (meson prefix_imp_sublist sublist_trans)
qed

lemma listed_sublist:
  assumes "item \<in> set (map trimSpace (fst (scanLines c)))"
  shows "sublist item c"
proof -
  from assms obtain l where "l \<in> set (fst (scanLines c))" "item = trimSpace l" by auto
  with scanLines_sublist [of l c] trimSpace_sublist [of l] show ?thesis
    by (meson sublist_trans)
qed

lemma addToExclude_cases:
  assumes "addToExclude um item t = Inr t'"
  obtains (listed) t1 m c where "mkdirAll (masked um 0x1ED) (butlast excludeFile) t = Inr t1"
      "stat (Some t1) excludeFile = Inr (File m c)"
      "item \<in> set (map trimSpace (fst (scanLines c)))" "t' = Some t1"
    | (appended) t1 where "mkdirAll (masked um 0x1ED) (butlast excludeFile) t = Inr t1"
      "appendFile excludeFile (item @ [CHR 0x0A]) (masked um 0x1A4) (Some t1) = Inr t'"
proof -
  from assms obtain t1 where mk: "mkdirAll (masked um 0x1ED) (butlast excludeFile) t = Inr t1"
    by (cases "mkdirAll (masked um 0x1ED) (butlast excludeFile) t") (auto simp: addToExclude_def)
  show ?thesis
  proof (cases "stat (Some t1) excludeFile")
    case (Inl e)
    with assms mk appended show ?thesis by (simp add: addToExclude_def)
  next
    case (Inr n)
    show ?thesis
    proof (cases n)
      case (Dir m es)
      with assms mk Inr show ?thesis by (simp add: addToExclude_def)
    next
      case (File m c)
      show ?thesis
      proof (cases "item \<in> set (map trimSpace (fst (scanLines c)))")
        case True
        with assms mk Inr File have "t' = Some t1" by (simp add: addToExclude_def)
        with mk Inr File True listed show ?thesis by blast
      next
        case False
        with assms mk Inr File
        have "appendFile excludeFile (item @ [CHR 0x0A]) (masked um 0x1A4) (Some t1) = Inr t'"
          by (auto simp: addToExclude_def split: if_splits)
        with mk appended show ?thesis by blast
      qed
    qed
  qed
qed

lemma addToExclude_keeps:
  assumes "addToExclude um item t = Inr t'" and "stat t q = Inr n" and "q \<noteq> excludeFile"
  shows "\<exists>n'. stat t' q = Inr n' \<and> kept n n'"
  using assms(1)
proof (cases rule: addToExclude_cases)
  case (listed t1 m c)
  with mkdirAll_keeps [OF listed(1) assms(2)] show ?thesis by simp
next
  case (appended t1)
  from mkdirAll_keeps [OF appended(1) assms(2)] obtain n1 where
    n1: "stat (Some t1) q = Inr n1" "kept n n1" by blast
  from appendFile_keeps [OF appended(2) n1(1) assms(3)] n1(2) show ?thesis
    by (auto intro: kept_trans)
qed

lemma addToExclude_other:
  assumes "addToExclude um item t = Inr t'"
    and "\<not> prefix q excludeFile" and "\<not> prefix excludeFile q"
  shows "stat t' q = stat t q"
proof -
  have np: "\<not> prefix q (butlast excludeFile)"
    using assms(2) prefix_order.trans [OF _ prefixeq_butlast] by blast
  from assms(1) show ?thesis
  proof (cases rule: addToExclude_cases)
    case (listed t1 m c)
    with mkdirAll_other [OF listed(1) np] show ?thesis by simp
  next
    case (appended t1)
    from appended(2) have "stat t' q = stat (Some t1) q"
      unfolding appendFile_def using assms(3,2) by (rule stat_alterAt_other)
    with mkdirAll_other [OF appended(1) np] show ?thesis by simp
  qed
qed

lemma addToExclude_registers:
  assumes "addToExclude um item t = Inr t'"
  shows "\<exists>m c. stat t' excludeFile = Inr (File m c) \<and> sublist item c"
  using assms
proof (cases rule: addToExclude_cases)
  case (listed t1 m c)
  with listed_sublist [OF listed(3)] show ?thesis by auto
next
  case (appended t1)
  from appendFile_content [OF appended(2)] obtain m c where
    "stat t' excludeFile = Inr (File m c)" "suffix (item @ [CHR 0x0A]) c" by blast
  moreover from this have "sublist item c"
    by (auto simp: suffix_def sublist_def)
  ultimately show ?thesis by blast
qed

lemma addToExclude_grows:
  assumes "addToExclude um item t = Inr t'" and "stat t excludeFile = Inr (File m c)"
  shows "\<exists>m' c'. stat t' excludeFile = Inr (File m' c') \<and> prefix c c'"
  using assms(1)
proof (cases rule: addToExclude_cases)
  case (listed t1 m1 c1)
  from mkdirAll_keeps [OF listed(1) assms(2)] listed show ?thesis by (auto simp: kept_def)
next
  case (appended t1)
  from mkdirAll_keeps [OF appended(1) assms(2)] have "stat (Some t1) excludeFile = Inr (File m c)"
    by (auto simp: kept_def)
  with appendFile_content [OF appended(2)] show ?thesis by auto
qed

section \<open>Sync Engine\<close>

subsection \<open>The loop of sync-in\<close>

lemma syncInLoop_store: "syncInLoop cfg xs w = Inr w' \<Longrightarrow> store w' = store w \<and> umask w' = umask w"
  by (induction xs arbitrary: w) (auto split: sum.splits)

lemma syncInLoop_step:
  assumes "syncInLoop cfg (a # xs) w = Inr w'"
  obtains t1 t2 where
    "copyPath (umask w) (store w) (StoreLocation cfg @ [a]) [a] (work w) = Inr t1"
    "addToExclude (umask w) a t1 = Inr t2"
    "syncInLoop cfg xs (w\<lparr>work := t2\<rparr>) = Inr w'"
  using assms by (auto split: sum.splits)

lemma syncInLoop_keeps:
  "syncInLoop cfg xs w = Inr w' \<Longrightarrow> stat (work w) q = Inr n \<Longrightarrow> q \<noteq> excludeFile
   \<Longrightarrow> \<forall>x \<in> set xs. \<not> prefix [x] q
   \<Longrightarrow> \<exists>n'. stat (work w') q = Inr n' \<and> kept n n'"
proof (induction xs arbitrary: w n)
  case Nil
  then show ?case by (auto simp: kept_refl)
next
  case (Cons a xs)
  from Cons.prems(1) obtain t1 t2 where
    cp: "copyPath (umask w) (store w) (StoreLocation cfg @ [a]) [a] (work w) = Inr t1"
    and ad: "addToExclude (umask w) a t1 = Inr t2"
    and rest: "syncInLoop cfg xs (w\<lparr>work := t2\<rparr>) = Inr w'"
    by (rule syncInLoop_step)
  from Cons.prems(4) have na: "\<not> prefix [a] q" by simp
  from copyPath_keeps [OF cp na Cons.prems(2)] obtain n1 where
    n1: "stat t1 q = Inr n1" "kept n n1" by blast
  from addToExclude_keeps [OF ad n1(1) Cons.prems(3)] obtain n2 where
    n2: "stat t2 q = Inr n2" "kept n1 n2" by blast
  from Cons.IH [OF rest, of n2] n2(1) Cons.prems(3,4) obtain n' where
    "stat (work w') q = Inr n'" "kept n2 n'" by auto
  with n1(2) n2(2) show ?case by (auto intro: kept_trans)
qed

lemma syncInLoop_copies:
  "syncInLoop cfg xs w = Inr w' \<Longrightarrow> item \<in> set xs
   \<Longrightarrow> stat (store w) (StoreLocation cfg @ item # p) = Inr n \<Longrightarrow> item # p \<noteq> excludeFile
   \<Longrightarrow> \<exists>n'. stat (work w') (item # p) = Inr n' \<and> kept n n'"
proof (induction xs arbitrary: w)
  case Nil
  then show ?case by simp
next
  case (Cons a xs)
  from Cons.prems(1) obtain t1 t2 where
    cp: "copyPath (umask w) (store w) (StoreLocation cfg @ [a]) [a] (work w) = Inr t1"
    and ad: "addToExclude (umask w) a t1 = Inr t2"
    and rest: "syncInLoop cfg xs (w\<lparr>work := t2\<rparr>) = Inr w'"
    by (rule syncInLoop_step)
  show ?case
  proof (cases "item \<in> set xs")
    case True
    from Cons.IH [OF rest True] Cons.prems(3,4) show ?thesis by simp
  next
    case False
    with Cons.prems(2) have ia: "item = a" by simp
    from Cons.prems(3) ia have "stat (store w) ((StoreLocation cfg @ [a]) @ p) = Inr n" by simp
    from copyPath_copies [OF cp this] obtain n1 where
      n1: "stat t1 (item # p) = Inr n1" "kept n n1" by (auto simp: ia)
    from addToExclude_keeps [OF ad n1(1) Cons.prems(4)] obtain n2 where
      n2: "stat t2 (item # p) = Inr n2" "kept n1 n2" by blast
    from False have "\<forall>x \<in> set xs. \<not> prefix [x] (item # p)" by auto
    with syncInLoop_keeps [OF rest, of "item # p" n2] n2(1) Cons.prems(4) obtain n' where
      "stat (work w') (item # p) = Inr n'" "kept n2 n'" by auto
    with n1(2) n2(2) show ?thesis by (auto intro: kept_trans)
  qed
qed

lemma syncInLoop_other:
  "syncInLoop cfg xs w = Inr w' \<Longrightarrow> nm \<notin> set xs \<Longrightarrow> nm \<noteq> ''.git''
   \<Longrightarrow> stat (work w') (nm # q) = stat (work w) (nm # q)"
proof (induction xs arbitrary: w)
  case Nil
  then show ?case by simp
next
  case (Cons a xs)
  from Cons.prems(1) obtain t1 t2 where
    cp: "copyPath (umask w) (store w) (StoreLocation cfg @ [a]) [a] (work w) = Inr t1"
    and ad: "addToExclude (umask w) a t1 = Inr t2"
    and rest: "syncInLoop cfg xs (w\<lparr>work := t2\<rparr>) = Inr w'"
    by (rule syncInLoop_step)
  from Cons.prems(2) have "stat t1 (nm # q) = stat (work w) (nm # q)"
    by (intro copyPath_other [OF cp]) auto
  moreover from Cons.prems(3) have "stat t2 (nm # q) = stat t1 (nm # q)"
    by (intro addToExclude_other [OF ad]) (auto simp: excludeFile_def)
  moreover from Cons.IH [OF rest] Cons.prems(2,3)
  have "stat (work w') (nm # q) = stat t2 (nm # q)" by simp
  ultimately show ?case by simp
qed

lemma syncInLoop_exclude_grows:
  "syncInLoop cfg xs w = Inr w' \<Longrightarrow> ''.git'' \<notin> set xs
   \<Longrightarrow> stat (work w) excludeFile = Inr (File m c)
   \<Longrightarrow> \<exists>m' c'. stat (work w') excludeFile = Inr (File m' c') \<and> prefix c c'"
proof (induction xs arbitrary: w m c)
  case Nil
  then show ?case by auto
next
  case (Cons a xs)
  from Cons.prems(1) obtain t1 t2 where
    cp: "copyPath (umask w) (store w) (StoreLocation cfg @ [a]) [a] (work w) = Inr t1"
    and ad: "addToExclude (umask w) a t1 = Inr t2"
    and rest: "syncInLoop cfg xs (w\<lparr>work := t2\<rparr>) = Inr w'"
    by (rule syncInLoop_step)
  from Cons.prems(2) have "stat t1 excludeFile = stat (work w) excludeFile"
    by (intro copyPath_other [OF cp]) (auto simp: excludeFile_def)
  with Cons.prems(3) have "stat t1 excludeFile = Inr (File m c)" by simp
  from addToExclude_grows [OF ad this] obtain m2 c2 where
    c2: "stat t2 excludeFile = Inr (File m2 c2)" "prefix c c2" by blast
  from Cons.IH [OF rest, of m2 c2] Cons.prems(2) c2(1) obtain m' c' where
    "stat (work w') excludeFile = Inr (File m' c')" "prefix c2 c'" by auto
  with c2(2) show ?case by (auto intro: prefix_order.trans)
qed

lemma syncInLoop_registers:
  "syncInLoop cfg xs w = Inr w' \<Longrightarrow> ''.git'' \<notin> set xs \<Longrightarrow> item \<in> set xs
   \<Longrightarrow> \<exists>m c. stat (work w') excludeFile = Inr (File m c) \<and> sublist item c"
proof (induction xs arbitrary: w)
  case Nil
  then show ?case by simp
next
  case (Cons a xs)
  from Cons.prems(1) obtain t1 t2 where
    cp: "copyPath (umask w) (store w) (StoreLocation cfg @ [a]) [a] (work w) = Inr t1"
    and ad: "addToExclude (umask w) a t1 = Inr t2"
    and rest: "syncInLoop cfg xs (w\<lparr>work := t2\<rparr>) = Inr w'"
    by (rule syncInLoop_step)
  show ?case
  proof (cases "item \<in> set xs")
    case True
    from Cons.IH [OF rest _ True] Cons.prems(2) show ?thesis by simp
  next
    case False
    with Cons.prems(3) have ia: "item = a" by simp
    from addToExclude_registers [OF ad] ia obtain m2 c2 where
      c2: "stat t2 excludeFile = Inr (File m2 c2)" "sublist item c2" by blast
    from syncInLoop_exclude_grows [OF rest, of m2 c2] Cons.prems(2) c2(1) obtain m' c' where
      c': "stat (work w') excludeFile = Inr (File m' c')" "prefix c2 c'" by auto
    from c2(2) c'(2) have "sublist item c'"
      by (meson prefix_imp_sublist sublist_trans)
    with c'(1) show ?thesis by blast
  qed
qed

text \<open>Every entry of the list has its own copy, followed by its own registration.\<close>

lemma syncInLoop_split:
  "syncInLoop cfg (pre @ item # post) w = Inr w'
   \<Longrightarrow> \<exists>wa t1 t2. syncInLoop cfg pre w = Inr wa
         \<and> copyPath (umask wa) (store wa) (StoreLocation cfg @ [item]) [item] (work wa) = Inr t1
         \<and> addToExclude (umask wa) item t1 = Inr t2
         \<and> syncInLoop cfg post (wa\<lparr>work := t2\<rparr>) = Inr w'"
proof (induction pre arbitrary: w)
  case Nil
  from Nil have "syncInLoop cfg (item # post) w = Inr w'" by simp
  then obtain t1 t2 where
    "copyPath (umask w) (store w) (StoreLocation cfg @ [item]) [item] (work w) = Inr t1"
    "addToExclude (umask w) item t1 = Inr t2"
    "syncInLoop cfg post (w\<lparr>work := t2\<rparr>) = Inr w'"
    by (rule syncInLoop_step)
  then show ?case by auto
next
  case (Cons a pre)
  from Cons.prems have "syncInLoop cfg (a # (pre @ item # post)) w = Inr w'" by simp
  then obtain t1 t2 where
    cp: "copyPath (umask w) (store w) (StoreLocation cfg @ [a]) [a] (work w) = Inr t1"
    and ad: "addToExclude (umask w) a t1 = Inr t2"
    and rest: "syncInLoop cfg (pre @ item # post) (w\<lparr>work := t2\<rparr>) = Inr w'"
    by (rule syncInLoop_step)
  from Cons.IH [OF rest] obtain wa u1 u2 where
    "syncInLoop cfg pre (w\<lparr>work := t2\<rparr>) = Inr wa"
    "copyPath (umask wa) (store wa) (StoreLocation cfg @ [item]) [item] (work wa) = Inr u1"
    "addToExclude (umask wa) item u1 = Inr u2"
    "syncInLoop cfg post (wa\<lparr>work := u2\<rparr>) = Inr w'" by blast
  with cp ad show ?case by auto
qed

lemma syncInLoop_each:
  assumes "syncInLoop cfg xs w = Inr w'" and "xs = pre @ item # post"
  shows "\<exists>wa t1 t2 m c. syncInLoop cfg pre w = Inr wa
         \<and> copyPath (umask wa) (store wa) (StoreLocation cfg @ [item]) [item] (work wa) = Inr t1
         \<and> addToExclude (umask wa) item t1 = Inr t2
         \<and> stat t2 excludeFile = Inr (File m c) \<and> sublist item c
         \<and> syncInLoop cfg post (wa\<lparr>work := t2\<rparr>) = Inr w'"
proof -
  from assms have "syncInLoop cfg (pre @ item # post) w = Inr w'" by simp
  from syncInLoop_split [OF this] obtain wa t1 t2 where
    s: "syncInLoop cfg pre w = Inr wa"
    "copyPath (umask wa) (store wa) (StoreLocation cfg @ [item]) [item] (work wa) = Inr t1"
    "addToExclude (umask wa) item t1 = Inr t2"
    "syncInLoop cfg post (wa\<lparr>work := t2\<rparr>) = Inr w'" by blast
  from addToExclude_registers [OF s(3)] obtain m c where
    "stat t2 excludeFile = Inr (File m c)" "sublist item c" by blast
  with s show ?thesis by blast
qed

lemma filterItems_filter:
  "filterItems items = filter (\<lambda>item. item \<noteq> deletionMarker \<and> item \<noteq> branchesDir) items"
  by (induction items) auto

lemma initialize_work: "initializeBranchStorage cfg w = Inr w1 \<Longrightarrow> work w1 = work w"
  by (auto simp: initializeBranchStorage_def split: if_splits sum.splits)

subsection \<open>Joined paths\<close>

lemma cleanInto_base:
  "cleanInto st cs = Some r \<Longrightarrow> cleanInto (st @ base) cs = Some (rev base @ r)"
proof (induction st cs rule: cleanInto.induct)
  case (1 st)
  then show ?case by auto
next
  case (2 st c cs)
  show ?case
  proof (cases "c = [] \<or> c = ''.''")
    case True
    with 2 show ?thesis by auto
  next
    case False
    show ?thesis
    proof (cases "c = ''..''")
      case True
      with False "2.prems" obtain x st' where st: "st = x # st'"
        by (cases st) auto
      with True False 2 show ?thesis by auto
    next
      case up: False
      with False 2 show ?thesis by auto
    qed
  qed
qed

lemma joinPath_root: "joinPath [] item = Some src \<Longrightarrow> joinPath root item = Some (root @ src)"
  using cleanInto_base [of "[]" "splitOn (CHR ''/'') item" src "rev root"]
  by (simp add: joinPath_def)

subsection \<open>The copy loop of sync-out\<close>

lemma syncOutCopy_work: "syncOutCopy cfg xs w = Inr w' \<Longrightarrow> work w' = work w \<and> umask w' = umask w"
  by (induction xs arbitrary: w) (auto split: sum.splits option.splits if_splits)

lemma syncOutCopy_step:
  assumes "syncOutCopy cfg (a # xs) w = Inr w'"
  obtains (skipped) src where "joinPath [] a = Some src" "\<not> exists (work w) src"
      "syncOutCopy cfg xs w = Inr w'"
    | (copied) src t where "joinPath [] a = Some src" "exists (work w) src"
      "copyPath (umask w) (work w) src (StoreLocation cfg @ src) (store w) = Inr t"
      "syncOutCopy cfg xs (w\<lparr>store := t\<rparr>) = Inr w'"
proof -
  from assms obtain src where src: "joinPath [] a = Some src"
    by (cases "joinPath [] a") auto
  show ?thesis
  proof (cases "exists (work w) src")
    case False
    with assms src skipped show ?thesis by simp
  next
    case True
    with assms src joinPath_root [OF src, of "StoreLocation cfg"] obtain t where
      "copyPath (umask w) (work w) src (StoreLocation cfg @ src) (store w) = Inr t"
      "syncOutCopy cfg xs (w\<lparr>store := t\<rparr>) = Inr w'"
      by (auto split: sum.splits)
    with src True copied show ?thesis by blast
  qed
qed

lemma syncOutCopy_keeps:
  "syncOutCopy cfg xs w = Inr w' \<Longrightarrow> stat (work w) q = Inr n
   \<Longrightarrow> stat (store w) (StoreLocation cfg @ q) = Inr n1 \<Longrightarrow> kept n n1
   \<Longrightarrow> \<exists>n'. stat (store w') (StoreLocation cfg @ q) = Inr n' \<and> kept n n'"
proof (induction xs arbitrary: w n1)
  case Nil
  then show ?case by auto
next
  case (Cons a xs)
  from Cons.prems(1) show ?case
  proof (cases rule: syncOutCopy_step)
    case (skipped src)
    from Cons.IH [OF skipped(3) Cons.prems(2-4)] show ?thesis .
  next
    case (copied src t)
    have "\<exists>n2. stat t (StoreLocation cfg @ q) = Inr n2 \<and> kept n n2"
    proof (cases "prefix src q")
      case True
      then obtain r where q: "q = src @ r" by (auto simp: prefix_def)
      with Cons.prems(2) have "stat (work w) (src @ r) = Inr n" by simp
      from copyPath_copies [OF copied(3) this] q show ?thesis by simp
    next
      case False
      then have "\<not> prefix (StoreLocation cfg @ src) (StoreLocation cfg @ q)" by simp
      from copyPath_keeps [OF copied(3) this Cons.prems(3)] Cons.prems(4) show ?thesis
        by (auto intro: kept_trans)
    qed
    then obtain n2 where n2: "stat t (StoreLocation cfg @ q) = Inr n2" "kept n n2" by blast
    from Cons.IH [OF copied(4), of n2] Cons.prems(2) n2 show ?thesis by simp
  qed
qed

lemma syncOutCopy_copies:
  "syncOutCopy cfg xs w = Inr w' \<Longrightarrow> item \<in> set xs \<Longrightarrow> joinPath [] item = Some src
   \<Longrightarrow> stat (work w) (src @ p) = Inr n
   \<Longrightarrow> \<exists>n'. stat (store w') (StoreLocation cfg @ src @ p) = Inr n' \<and> kept n n'"
proof (induction xs arbitrary: w)
  case Nil
  then show ?case by simp
next
  case (Cons a xs)
  have there: "exists (work w) src"
  proof -
    have "stat (work w) src \<noteq> Inl e" for e
      using stat_append_Inl [of "work w" src e p] Cons.prems(4) by auto
    then show ?thesis by (cases "stat (work w) src") (auto simp: exists_def)
  qed
  from Cons.prems(1) show ?case
  proof (cases rule: syncOutCopy_step)
    case (skipped sa)
    with there Cons.prems(3) have "item \<noteq> a" by auto
    with Cons.prems(2) have "item \<in> set xs" by simp
    from Cons.IH [OF skipped(3) this Cons.prems(3,4)] show ?thesis .
  next
    case (copied sa t)
    show ?thesis
    proof (cases "item \<in> set xs")
      case True
      from Cons.IH [OF copied(4) True Cons.prems(3)] Cons.prems(4) show ?thesis by simp
    next
      case False
      with Cons.prems(2,3) copied(1) have sa: "sa = src" by simp
      from copyPath_copies [OF copied(3), of p n] Cons.prems(4) sa obtain n1 where
        n1: "stat t (StoreLocation cfg @ src @ p) = Inr n1" "kept n n1" by auto
      from syncOutCopy_keeps [OF copied(4), of "src @ p" n n1] Cons.prems(4) n1
      show ?thesis by simp
    qed
  qed
qed

subsection \<open>The removal loop of sync-out\<close>

lemma syncOutRemove_work:
  "syncOutRemove cfg items xs w = Inr w' \<Longrightarrow> work w' = work w \<and> umask w' = umask w"
  by (induction xs arbitrary: w) (auto split: sum.splits if_splits)

lemma osRemoveAll_gone:
  assumes "osRemoveAll p t = Inr t'"
  shows "stat t' p = Inl ENOENT"
proof (cases "stat t p")
  case (Inl e)
  with assms show ?thesis by (auto simp: osRemoveAll_def split: if_splits)
next
  case (Inr n)
  from removeAll_existing [OF Inr] assms show ?thesis by auto
qed

lemma syncOutRemove_step:
  assumes "syncOutRemove cfg items (a # xs) w = Inr w'"
  obtains (retained) "a = deletionMarker \<or> a = branchesDir \<or> a \<in> set items"
      "syncOutRemove cfg items xs w = Inr w'"
    | (removed) t where "a \<noteq> deletionMarker" "a \<noteq> branchesDir" "a \<notin> set items"
      "osRemoveAll (StoreLocation cfg @ [a]) (store w) = Inr t"
      "syncOutRemove cfg items xs (w\<lparr>store := t\<rparr>) = Inr w'"
  using assms by (auto split: sum.splits if_splits)

lemma syncOutRemove_absent:
  "syncOutRemove cfg items xs w = Inr w' \<Longrightarrow> stat (store w) (StoreLocation cfg @ [x]) = Inl ENOENT
   \<Longrightarrow> stat (store w') (StoreLocation cfg @ [x]) = Inl ENOENT"
proof (induction xs arbitrary: w)
  case Nil
  then show ?case by simp
next
  case (Cons a xs)
  from Cons.prems(1) show ?case
  proof (cases rule: syncOutRemove_step)
    case retained
    from Cons.IH [OF retained(2) Cons.prems(2)] show ?thesis .
  next
    case (removed t)
    have "stat t (StoreLocation cfg @ [x]) = Inl ENOENT"
    proof (cases "a = x")
      case True
      with osRemoveAll_gone [OF removed(4)] show ?thesis by simp
    next
      case False
      then have "stat t (StoreLocation cfg @ [x]) = stat (store w) (StoreLocation cfg @ [x])"
        by (intro removeAll_other [OF removed(4)]) auto
      with Cons.prems(2) show ?thesis by simp
    qed
    with Cons.IH [OF removed(5)] show ?thesis by simp
  qed
qed

lemma syncOutRemove_removes:
  "syncOutRemove cfg items xs w = Inr w' \<Longrightarrow> x \<in> set xs
   \<Longrightarrow> x \<noteq> deletionMarker \<Longrightarrow> x \<noteq> branchesDir \<Longrightarrow> x \<notin> set items
   \<Longrightarrow> stat (store w') (StoreLocation cfg @ [x]) = Inl ENOENT"
proof (induction xs arbitrary: w)
  case Nil
  then show ?case by simp
next
  case (Cons a xs)
  from Cons.prems(1) show ?case
  proof (cases rule: syncOutRemove_step)
    case retained
    with Cons.prems(2-5) have "x \<in> set xs" by auto
    from Cons.IH [OF retained(2) this Cons.prems(3-5)] show ?thesis .
  next
    case (removed t)
    show ?thesis
    proof (cases "a = x")
      case True
      with osRemoveAll_gone [OF removed(4)]
      have "stat (store (w\<lparr>store := t\<rparr>)) (StoreLocation cfg @ [x]) = Inl ENOENT" by simp
      with syncOutRemove_absent [OF removed(5)] show ?thesis by simp
    next
      case False
      with Cons.prems(2) have "x \<in> set xs" by simp
      from Cons.IH [OF removed(5) this Cons.prems(3-5)] show ?thesis .
    qed
  qed
qed

lemma syncOutRemove_retains:
  "syncOutRemove cfg items xs w = Inr w'
   \<Longrightarrow> x = deletionMarker \<or> x = branchesDir \<or> x \<in> set items
   \<Longrightarrow> stat (store w') (StoreLocation cfg @ x # q) = stat (store w) (StoreLocation cfg @ x # q)"
proof (induction xs arbitrary: w)
  case Nil
  then show ?case by simp
next
  case (Cons a xs)
  from Cons.prems(1) show ?case
  proof (cases rule: syncOutRemove_step)
    case retained
    from Cons.IH [OF retained(2) Cons.prems(2)] show ?thesis .
  next
    case (removed t)
    with Cons.prems(2) have "a \<noteq> x" by auto
    then have "stat t (StoreLocation cfg @ x # q) = stat (store w) (StoreLocation cfg @ x # q)"
      by (intro removeAll_other [OF removed(4)]) auto
    with Cons.IH [OF removed(5) Cons.prems(2)] show ?thesis by simp
  qed
qed

lemma listDir_absent:
  assumes "listDir t p = Inr names" and "x \<notin> set names"
  shows "stat t (p @ [x]) = Inl ENOENT"
proof (cases "stat t p")
  case (Inl e)
  with assms(1) have "e = ENOENT" by (auto simp: listDir_def split: if_splits)
  with Inl stat_append_Inl [of t p e "[x]"] show ?thesis by simp
next
  case (Inr pn)
  with assms(1) obtain m es where d: "pn = Dir m es" and names: "names = map fst (readDir es)"
    by (cases pn) (auto simp: listDir_def)
  have "map_of es x = None"
  proof (cases "map_of es x")
    case None
    then show ?thesis .
  next
    case (Some c)
    then have "(x, c) \<in> set (readDir es)" by (simp add: readDir_entry)
    then have "x \<in> set (map fst (readDir es))" by force
    with assms(2) names show ?thesis by simp
  qed
  with stat_append [OF Inr, of "[x]"] d show ?thesis by simp
qed

lemma excludeEntries_exist:
  "excludeEntries t ls = Inr items \<Longrightarrow> item \<in> set items
   \<Longrightarrow> \<exists>src. joinPath [] item = Some src \<and> exists t src"
proof (induction ls arbitrary: items)
  case Nil
  then show ?case by simp
next
  case (Cons a ls)
  then show ?case
    by (auto simp: Let_def split: if_splits option.splits sum.splits)
qed

lemma readExcludeFile_exist:
  "readExcludeFile t = Inr items \<Longrightarrow> item \<in> set items
   \<Longrightarrow> \<exists>src. joinPath [] item = Some src \<and> exists t src"
  by (auto simp: readExcludeFile_def split: sum.splits node.splits if_splits
      dest: excludeEntries_exist)

subsection \<open>Sync-in and sync-out as wholes\<close>

lemma syncIn_parts:
  assumes "syncIn cfg w = Inr w'"
  obtains w1 names where "initializeBranchStorage cfg w = Inr w1"
    "listDir (store w1) (StoreLocation cfg) = Inr names"
    "syncInLoop cfg (filterItems names) w1 = Inr w'"
  using assms by (auto simp: syncIn_def split: sum.splits)

lemma syncOut_parts:
  assumes "syncOut cfg w = Inr w'"
  obtains items t0 w1 names where "readExcludeFile (work w) = Inr items"
    "mkdirAll (masked (umask w) 0x1ED) (StoreLocation cfg) (store w) = Inr t0"
    "syncOutCopy cfg items (w\<lparr>store := Some t0\<rparr>) = Inr w1"
    "listDir (store w1) (StoreLocation cfg) = Inr names"
    "syncOutRemove cfg items names w1 = Inr w'"
  using assms by (auto simp: syncOut_def split: sum.splits)

lemma syncIn_copies:
  assumes "syncIn cfg w = Inr w'" and "initializeBranchStorage cfg w = Inr w1"
    and "item \<noteq> deletionMarker" "item \<noteq> branchesDir" "item # p \<noteq> excludeFile"
    and "stat (store w1) (StoreLocation cfg @ item # p) = Inr n"
  shows "\<exists>n'. stat (work w') (item # p) = Inr n' \<and> kept n n'"
proof -
  from assms(1,2) obtain names where ls: "listDir (store w1) (StoreLocation cfg) = Inr names"
    and lp: "syncInLoop cfg (filterItems names) w1 = Inr w'"
    by (auto elim!: syncIn_parts)
  from listDir_mem [OF ls assms(6)] assms(3,4) have "item \<in> set (filterItems names)"
    by (simp add: filterItems_filter)
  from syncInLoop_copies [OF lp this assms(6,5)] show ?thesis .
qed

lemma syncOut_copies:
  assumes "syncOut cfg w = Inr w'" and "readExcludeFile (work w) = Inr items"
    and "item \<in> set items" "joinPath [] item = Some src"
    and "stat (work w) (src @ p) = Inr n" and "src @ p = x # q"
    and "x = deletionMarker \<or> x = branchesDir \<or> x \<in> set items"
  shows "\<exists>n'. stat (store w') (StoreLocation cfg @ src @ p) = Inr n' \<and> kept n n'"
proof -
  from assms(1,2) obtain t0 w1 names where
    cp: "syncOutCopy cfg items (w\<lparr>store := Some t0\<rparr>) = Inr w1"
    and rm: "syncOutRemove cfg items names w1 = Inr w'"
    by (auto elim!: syncOut_parts)
  from syncOutCopy_copies [OF cp assms(3,4), of p n] assms(5) obtain n' where
    n': "stat (store w1) (StoreLocation cfg @ src @ p) = Inr n'" "kept n n'" by auto
  from syncOutRemove_retains [OF rm assms(7), of q] assms(6) n' show ?thesis by simp
qed

lemma syncOut_prunes:
  assumes "syncOut cfg w = Inr w'" and "readExcludeFile (work w) = Inr items"
    and "x \<noteq> deletionMarker" "x \<noteq> branchesDir" "x \<notin> set items"
  shows "stat (store w') (StoreLocation cfg @ x # q) = Inl ENOENT"
proof -
  from assms(1,2) obtain w1 names where
    ls: "listDir (store w1) (StoreLocation cfg) = Inr names"
    and rm: "syncOutRemove cfg items names w1 = Inr w'"
    by (auto elim!: syncOut_parts)
  have "stat (store w') (StoreLocation cfg @ [x]) = Inl ENOENT"
  proof (cases "x \<in> set names")
    case True
    from syncOutRemove_removes [OF rm True assms(3-5)] show ?thesis .
  next
    case False
    from syncOutRemove_absent [OF rm listDir_absent [OF ls False]] show ?thesis .
  qed
  from stat_append_Inl [OF this, of q] show ?thesis by simp
qed

lemma copyTo_keeps_dest:
  "copyTo um src dst = Inr res \<Longrightarrow> dst = Some d \<Longrightarrow> stat (Some d) q = Inr n
   \<Longrightarrow> \<exists>n'. stat (Some res) q = Inr n'"
proof (induction um src dst arbitrary: d res q n rule: copyTo.induct)
  case (1 um m c dst)
  then show ?case
    by (cases d; cases q) (auto simp: createFrom_def)
next
  case (2 um m es dst)
  from "2.prems"(1,2) obtain dm ds ds' where d: "d = Dir dm ds" and res: "res = Dir dm ds'"
    and loop: "eachEntry (copyTo um) (readDir es) ds = Inr ds'"
    by (cases d) (auto split: sum.splits)
  show ?case
  proof (cases q)
    case Nil
    with res show ?thesis by simp
  next
    case (Cons x q')
    with "2.prems"(3) d obtain dc where dc: "map_of ds x = Some dc" "stat (Some dc) q' = Inr n"
      by (cases "map_of ds x") auto
    show ?thesis
    proof (cases "x \<in> fst ` set (readDir es)")
      case False
      from eachEntry_other [OF loop False] dc Cons res show ?thesis by simp
    next
      case True
      then obtain c where mem: "(x, c) \<in> set (readDir es)" by auto
      from eachEntry_entry [OF readDir_distinct loop mem] dc(1) obtain c' where
        c': "copyTo um c (Some dc) = Inr c'" "map_of ds' x = Some c'" by auto
      from "2.IH"(2) [OF "2.prems"(2) d mem c'(1) refl dc(2)] c'(2) Cons res
      show ?thesis by simp
    qed
  qed
qed

lemma copyPath_exists:
  assumes "copyPath um s src dst t = Inr t'" and "stat t q = Inr n"
  shows "\<exists>n'. stat t' q = Inr n'"
proof (cases "prefix dst q")
  case False
  from copyPath_keeps [OF assms(1) False assms(2)] show ?thesis by blast
next
  case True
  then obtain r where q: "q = dst @ r" by (auto simp: prefix_def)
  have below: "\<exists>n'. stat t' (dst @ r) = Inr n'"
    if alt: "alterAt dst (\<lambda>d. case copyTo um sn d of Inl e \<Rightarrow> Inl e | Inr k \<Rightarrow> Inr (Some k)) t0 = Inr t'"
      and old: "stat t0 (dst @ r) = Inr k" for sn t0 k
  proof -
    have "stat t0 dst \<noteq> Inl e" for e
      using stat_append_Inl [of t0 dst e r] old by auto
    then obtain dn where dn: "stat t0 dst = Inr dn" by (cases "stat t0 dst") auto
    from stat_append [OF dn, of r] old have inner: "stat (Some dn) r = Inr k" by simp
    from alterAt_result [OF alt] dn obtain res where
      res: "copyTo um sn (Some dn) = Inr res" "\<forall>x. stat t' (dst @ x) = stat (Some res) x"
      by (cases "copyTo um sn (Some dn)") (auto simp: nodeAt_def)
    from copyTo_keeps_dest [OF res(1) refl inner] res(2) show ?thesis by simp
  qed
  from assms(1) show ?thesis
  proof (cases rule: copyPath_cases)
    case (regular m c)
    from below [OF regular(2)] assms(2) q show ?thesis by simp
  next
    case (directory m es t1)
    from mkdirAll_keeps [OF directory(2) assms(2)] obtain n1 where
      "stat (Some t1) (dst @ r) = Inr n1" using q by auto
    from below [OF directory(3) this] q show ?thesis by simp
  qed
qed

lemma syncOutCopy_exists:
  "syncOutCopy cfg xs w = Inr w' \<Longrightarrow> stat (store w) q = Inr n \<Longrightarrow> \<exists>n'. stat (store w') q = Inr n'"
proof (induction xs arbitrary: w n)
  case Nil
  then show ?case by auto
next
  case (Cons a xs)
  from Cons.prems(1) show ?case
  proof (cases rule: syncOutCopy_step)
    case (skipped src)
    from Cons.IH [OF skipped(3) Cons.prems(2)] show ?thesis .
  next
    case (copied src t)
    from copyPath_exists [OF copied(3) Cons.prems(2)] obtain n1 where "stat t q = Inr n1" by blast
    with Cons.IH [OF copied(4), of n1] show ?thesis by simp
  qed
qed

lemma syncOut_protects:
  assumes "syncOut cfg w = Inr w'" and "x = deletionMarker \<or> x = branchesDir"
    and "stat (store w) (StoreLocation cfg @ x # q) = Inr n"
  shows "\<exists>n'. stat (store w') (StoreLocation cfg @ x # q) = Inr n'"
proof -
  from assms(1) obtain items t0 w1 names where
    mk: "mkdirAll (masked (umask w) 0x1ED) (StoreLocation cfg) (store w) = Inr t0"
    and cp: "syncOutCopy cfg items (w\<lparr>store := Some t0\<rparr>) = Inr w1"
    and rm: "syncOutRemove cfg items names w1 = Inr w'"
    by (rule syncOut_parts)
  from mkdirAll_keeps [OF mk assms(3)] obtain n0 where
    "stat (Some t0) (StoreLocation cfg @ x # q) = Inr n0" by blast
  with syncOutCopy_exists [OF cp, of "StoreLocation cfg @ x # q" n0] obtain n1 where
    "stat (store w1) (StoreLocation cfg @ x # q) = Inr n1" by auto
  with syncOutRemove_retains [OF rm, of x q] assms(2) show ?thesis by auto
qed

lemma syncIn_skips:
  assumes "syncIn cfg w = Inr w'" and "x = deletionMarker \<or> x = branchesDir"
  shows "stat (work w') (x # q) = stat (work w) (x # q)"
proof -
  from assms(1) obtain w1 names where init: "initializeBranchStorage cfg w = Inr w1"
    and lp: "syncInLoop cfg (filterItems names) w1 = Inr w'"
    by (rule syncIn_parts)
  from assms(2) have "x \<notin> set (filterItems names)" "x \<noteq> ''.git''"
    by (auto simp: filterItems_filter deletionMarker_def branchesDir_def)
  from syncInLoop_other [OF lp this, of q] initialize_work [OF init] show ?thesis by simp
qed

text \<open>
  Two sessions on the default branch. The first starts with storage holding a file, a
  directory with a nested \<open>.deleted_at\<close> and a nested \<open>branches\<close>, the marker and the
  \<open>branches\<close> directory. The second ends with an exclude file that lists a file on
  disk, a file that is gone and a directory, over storage with a stale directory.
\<close>

definition syncStore :: "node option" where
  "syncStore =
     Some (Dir 0x1ED
       [(''CLAUDE.md'', File 0x1A4 ''notes''),
        (''.deleted_at'', File 0x1A4 ''17''),
        (''tools'', Dir 0x1C0
           [(''run.sh'', File 0x1ED ''#!/bin/sh''),
            (''.deleted_at'', File 0x1A4 ''nested''),
            (''branches'', Dir 0x1ED [(''list'', File 0x1A4 ''a b'')])]),
        (''branches'', Dir 0x1ED
           [(''other'', Dir 0x1ED [(''CLAUDE.md'', File 0x1A4 ''other'')])])])"

definition inWorld :: world where
  "inWorld =
     \<lparr>work = Some (Dir 0x1ED
         [(''.git'', Dir 0x1ED
            [(''info'', Dir 0x1ED [(''exclude'', File 0x1A4 (''# local'' @ [CHR 0x0A]))])]),
          (''main.go'', File 0x1A4 ''package main'')]),
      store = syncStore, umask = 0x12\<rparr>"

definition inWorldAfter :: world where
  "inWorldAfter =
     \<lparr>work = Some (Dir 0x1ED
         [(''.git'', Dir 0x1ED
            [(''info'', Dir 0x1ED
               [(''exclude'', File 0x1A4
                   (''# local'' @ [CHR 0x0A] @ ''CLAUDE.md'' @ [CHR 0x0A] @ ''tools'' @ [CHR 0x0A]))])]),
          (''main.go'', File 0x1A4 ''package main''),
          (''CLAUDE.md'', File 0x1A4 ''notes''),
          (''tools'', Dir 0x1C0
             [(''.deleted_at'', File 0x1A4 ''nested''),
              (''branches'', Dir 0x1ED [(''list'', File 0x1A4 ''a b'')]),
              (''run.sh'', File 0x1ED ''#!/bin/sh'')])]),
      store = syncStore, umask = 0x12\<rparr>"

definition outWorld :: world where
  "outWorld =
     \<lparr>work = Some (Dir 0x1ED
         [(''.git'', Dir 0x1ED
            [(''info'', Dir 0x1ED
               [(''exclude'', File 0x1A4
                   (''exists.md'' @ [CHR 0x0A] @ ''deleted-file.md'' @ [CHR 0x0A]
                    @ ''tools/'' @ [CHR 0x0A]))])]),
          (''exists.md'', File 0x1A4 ''here''),
          (''tools'', Dir 0x1C0
             [(''run.sh'', File 0x1ED ''#!/bin/sh''),
              (''.deleted_at'', File 0x1A4 ''nested'')])]),
      store = Some (Dir 0x1ED
         [(''stale'', Dir 0x1ED [(''.deleted_at'', File 0x1A4 ''inside stale'')]),
          (''.deleted_at'', File 0x1A4 ''17''),
          (''branches'', Dir 0x1ED
             [(''other'', Dir 0x1ED [(''CLAUDE.md'', File 0x1A4 ''other'')])])]),
      umask = 0x12\<rparr>"

definition outWorldAfter :: world where
  "outWorldAfter =
     outWorld\<lparr>store := Some (Dir 0x1ED
         [(''.deleted_at'', File 0x1A4 ''17''),
          (''branches'', Dir 0x1ED
             [(''other'', Dir 0x1ED [(''CLAUDE.md'', File 0x1A4 ''other'')])]),
          (''exists.md'', File 0x1A4 ''here''),
          (''tools'', Dir 0x1C0
             [(''.deleted_at'', File 0x1A4 ''nested''),
              (''run.sh'', File 0x1ED ''#!/bin/sh'')])])\<rparr>"

lemma inWorld_syncIn: "syncIn (loadConfig ''main'' ''main'') inWorld = Inr inWorldAfter"
  by code_simp

lemma outWorld_syncOut: "syncOut (loadConfig ''main'' ''main'') outWorld = Inr outWorldAfter"
  by code_simp

text \<open>
  What a successful sync-in leaves behind, with \<open>names\<close> the listing of the storage
  location (after initialization): storage itself is as initialization left it; every
  node below an entry of the location other than the deletion marker and \<open>branches\<close> is
  kept in the working tree at the same relative path (the exclude file apart, which
  sync-in edits); outside \<open>.git\<close> nothing else changes in the working tree, so the
  marker and \<open>branches\<close> are never created there; and the run is, for every listed
  entry other than the two in the order of the listing, the copy of that entry to its
  own name followed by \<^verbatim>\<open>addToExclude\<close> on that name, after which the characters of
  the name are in the exclude file.
\<close>

lemma syncIn_effect:
  assumes "syncIn cfg w = Inr w'"
  shows "\<exists>w1 names. initializeBranchStorage cfg w = Inr w1
           \<and> listDir (store w1) (StoreLocation cfg) = Inr names \<and> store w' = store w1
           \<and> (\<forall>item p n. item \<noteq> deletionMarker \<and> item \<noteq> branchesDir \<and> item # p \<noteq> excludeFile
                  \<and> stat (store w1) (StoreLocation cfg @ item # p) = Inr n
                \<longrightarrow> (\<exists>n'. stat (work w') (item # p) = Inr n' \<and> kept n n'))
           \<and> (\<forall>item. item \<in> set names \<and> item \<noteq> deletionMarker \<and> item \<noteq> branchesDir
                  \<and> ''.git'' \<notin> set names
                \<longrightarrow> (\<exists>m c. stat (work w') excludeFile = Inr (File m c) \<and> sublist item c))
           \<and> (\<forall>nm q. nm \<noteq> ''.git'' \<and> (nm = deletionMarker \<or> nm = branchesDir \<or> nm \<notin> set names)
                \<longrightarrow> stat (work w') (nm # q) = stat (work w) (nm # q))
           \<and> (\<forall>pre item post.
                  filter (\<lambda>x. x \<noteq> deletionMarker \<and> x \<noteq> branchesDir) names = pre @ item # post
                \<longrightarrow> (\<exists>wa t1 t2 m c. syncInLoop cfg pre w1 = Inr wa
                       \<and> copyPath (umask wa) (store wa) (StoreLocation cfg @ [item]) [item] (work wa)
                           = Inr t1
                       \<and> addToExclude (umask wa) item t1 = Inr t2
                       \<and> stat t2 excludeFile = Inr (File m c) \<and> sublist item c
                       \<and> syncInLoop cfg post (wa\<lparr>work := t2\<rparr>) = Inr w'))"
proof -
  from assms obtain w1 names where init: "initializeBranchStorage cfg w = Inr w1"
    and ls: "listDir (store w1) (StoreLocation cfg) = Inr names"
    and lp: "syncInLoop cfg (filterItems names) w1 = Inr w'"
    by (rule syncIn_parts)
  have st: "store w' = store w1" using syncInLoop_store [OF lp] by simp
  have a: "\<exists>n'. stat (work w') (item # p) = Inr n' \<and> kept n n'"
    if "item \<noteq> deletionMarker \<and> item \<noteq> branchesDir \<and> item # p \<noteq> excludeFile
        \<and> stat (store w1) (StoreLocation cfg @ item # p) = Inr n" for item p n
    using syncIn_copies [OF assms init, of item p n] that by blast
  have b: "\<exists>m c. stat (work w') excludeFile = Inr (File m c) \<and> sublist item c"
    if "item \<in> set names \<and> item \<noteq> deletionMarker \<and> item \<noteq> branchesDir \<and> ''.git'' \<notin> set names"
    for item
    using syncInLoop_registers [OF lp, of item] that by (simp add: filterItems_filter)
  have c: "stat (work w') (nm # q) = stat (work w) (nm # q)"
    if "nm \<noteq> ''.git'' \<and> (nm = deletionMarker \<or> nm = branchesDir \<or> nm \<notin> set names)" for nm q
  proof -
    from that have "nm \<notin> set (filterItems names)" by (auto simp: filterItems_filter)
    from syncInLoop_other [OF lp this, of q] that initialize_work [OF init] show ?thesis by simp
  qed
  have d: "\<exists>wa t1 t2 m c. syncInLoop cfg pre w1 = Inr wa
             \<and> copyPath (umask wa) (store wa) (StoreLocation cfg @ [item]) [item] (work wa) = Inr t1
             \<and> addToExclude (umask wa) item t1 = Inr t2
             \<and> stat t2 excludeFile = Inr (File m c) \<and> sublist item c
             \<and> syncInLoop cfg post (wa\<lparr>work := t2\<rparr>) = Inr w'"
    if "filter (\<lambda>x. x \<noteq> deletionMarker \<and> x \<noteq> branchesDir) names = pre @ item # post"
    for pre item post
    using syncInLoop_each [OF lp, of pre item post] that by (simp add: filterItems_filter)
  have a': "\<forall>item p n. item \<noteq> deletionMarker \<and> item \<noteq> branchesDir \<and> item # p \<noteq> excludeFile
          \<and> stat (store w1) (StoreLocation cfg @ item # p) = Inr n
        \<longrightarrow> (\<exists>n'. stat (work w') (item # p) = Inr n' \<and> kept n n')"
    using a by (intro allI impI)
  have b': "\<forall>item. item \<in> set names \<and> item \<noteq> deletionMarker \<and> item \<noteq> branchesDir
            \<and> ''.git'' \<notin> set names
          \<longrightarrow> (\<exists>m c. stat (work w') excludeFile = Inr (File m c) \<and> sublist item c)"
    using b by (intro allI impI)
  have c': "\<forall>nm q. nm \<noteq> ''.git'' \<and> (nm = deletionMarker \<or> nm = branchesDir \<or> nm \<notin> set names)
          \<longrightarrow> stat (work w') (nm # q) = stat (work w) (nm # q)"
    using c by (intro allI impI)
  have d': "\<forall>pre item post.
            filter (\<lambda>x. x \<noteq> deletionMarker \<and> x \<noteq> branchesDir) names = pre @ item # post
          \<longrightarrow> (\<exists>wa t1 t2 m c. syncInLoop cfg pre w1 = Inr wa
                 \<and> copyPath (umask wa) (store wa) (StoreLocation cfg @ [item]) [item] (work wa)
                     = Inr t1
                 \<and> addToExclude (umask wa) item t1 = Inr t2
                 \<and> stat t2 excludeFile = Inr (File m c) \<and> sublist item c
                 \<and> syncInLoop cfg post (wa\<lparr>work := t2\<rparr>) = Inr w')"
    using d by (intro allI impI)
  show ?thesis
    by (rule exI [of _ w1], rule exI [of _ names]) (intro conjI init ls st a' b' c' d')
qed

lemma syncIn_effect_example:
  "syncIn (loadConfig ''main'' ''main'') inWorld = Inr inWorldAfter
   \<and> (\<exists>n'. stat (work inWorldAfter) [''tools'', ''run.sh''] = Inr n'
          \<and> kept (File 0x1ED ''#!/bin/sh'') n')
   \<and> (\<exists>m c. stat (work inWorldAfter) excludeFile = Inr (File m c) \<and> sublist ''CLAUDE.md'' c)
   \<and> stat (work inWorldAfter) [deletionMarker] = Inl ENOENT
   \<and> stat (work inWorldAfter) [branchesDir] = Inl ENOENT"
proof -
  let ?cfg = "loadConfig ''main'' ''main''"
  from syncIn_effect [OF inWorld_syncIn] obtain w1 where
    "\<exists>names. initializeBranchStorage ?cfg inWorld = Inr w1
           \<and> listDir (store w1) (StoreLocation ?cfg) = Inr names \<and> store inWorldAfter = store w1
           \<and> (\<forall>item p n. item \<noteq> deletionMarker \<and> item \<noteq> branchesDir \<and> item # p \<noteq> excludeFile
                  \<and> stat (store w1) (StoreLocation ?cfg @ item # p) = Inr n
                \<longrightarrow> (\<exists>n'. stat (work inWorldAfter) (item # p) = Inr n' \<and> kept n n'))
           \<and> (\<forall>item. item \<in> set names \<and> item \<noteq> deletionMarker \<and> item \<noteq> branchesDir
                  \<and> ''.git'' \<notin> set names
                \<longrightarrow> (\<exists>m c. stat (work inWorldAfter) excludeFile = Inr (File m c) \<and> sublist item c))
           \<and> (\<forall>nm q. nm \<noteq> ''.git'' \<and> (nm = deletionMarker \<or> nm = branchesDir \<or> nm \<notin> set names)
                \<longrightarrow> stat (work inWorldAfter) (nm # q) = stat (work inWorld) (nm # q))
           \<and> (\<forall>pre item post.
                  filter (\<lambda>x. x \<noteq> deletionMarker \<and> x \<noteq> branchesDir) names = pre @ item # post
                \<longrightarrow> (\<exists>wa t1 t2 m c. syncInLoop ?cfg pre w1 = Inr wa
                       \<and> copyPath (umask wa) (store wa) (StoreLocation ?cfg @ [item]) [item] (work wa)
                           = Inr t1
                       \<and> addToExclude (umask wa) item t1 = Inr t2
                       \<and> stat t2 excludeFile = Inr (File m c) \<and> sublist item c
                       \<and> syncInLoop ?cfg post (wa\<lparr>work := t2\<rparr>) = Inr inWorldAfter))"
    ..
  then obtain names where
    ex: "initializeBranchStorage ?cfg inWorld = Inr w1
           \<and> listDir (store w1) (StoreLocation ?cfg) = Inr names \<and> store inWorldAfter = store w1
           \<and> (\<forall>item p n. item \<noteq> deletionMarker \<and> item \<noteq> branchesDir \<and> item # p \<noteq> excludeFile
                  \<and> stat (store w1) (StoreLocation ?cfg @ item # p) = Inr n
                \<longrightarrow> (\<exists>n'. stat (work inWorldAfter) (item # p) = Inr n' \<and> kept n n'))
           \<and> (\<forall>item. item \<in> set names \<and> item \<noteq> deletionMarker \<and> item \<noteq> branchesDir
                  \<and> ''.git'' \<notin> set names
                \<longrightarrow> (\<exists>m c. stat (work inWorldAfter) excludeFile = Inr (File m c) \<and> sublist item c))
           \<and> (\<forall>nm q. nm \<noteq> ''.git'' \<and> (nm = deletionMarker \<or> nm = branchesDir \<or> nm \<notin> set names)
                \<longrightarrow> stat (work inWorldAfter) (nm # q) = stat (work inWorld) (nm # q))
           \<and> (\<forall>pre item post.
                  filter (\<lambda>x. x \<noteq> deletionMarker \<and> x \<noteq> branchesDir) names = pre @ item # post
                \<longrightarrow> (\<exists>wa t1 t2 m c. syncInLoop ?cfg pre w1 = Inr wa
                       \<and> copyPath (umask wa) (store wa) (StoreLocation ?cfg @ [item]) [item] (work wa)
                           = Inr t1
                       \<and> addToExclude (umask wa) item t1 = Inr t2
                       \<and> stat t2 excludeFile = Inr (File m c) \<and> sublist item c
                       \<and> syncInLoop ?cfg post (wa\<lparr>work := t2\<rparr>) = Inr inWorldAfter))"
    ..
  note init = ex [THEN conjunct1]
    and ls = ex [THEN conjunct2, THEN conjunct1]
    and copies = ex [THEN conjunct2, THEN conjunct2, THEN conjunct2, THEN conjunct1]
    and registers = ex [THEN conjunct2, THEN conjunct2, THEN conjunct2, THEN conjunct2, THEN conjunct1]
    and others = ex [THEN conjunct2, THEN conjunct2, THEN conjunct2, THEN conjunct2, THEN conjunct2,
        THEN conjunct1]
  have w1: "w1 = inWorld"
  proof -
    have "initializeBranchStorage ?cfg inWorld = Inr inWorld" by code_simp
    with init show ?thesis by simp
  qed
  have names: "names = [''.deleted_at'', ''CLAUDE.md'', ''branches'', ''tools'']"
  proof -
    have "listDir (store inWorld) (StoreLocation ?cfg)
          = Inr [''.deleted_at'', ''CLAUDE.md'', ''branches'', ''tools'']" by code_simp
    with ls w1 show ?thesis by simp
  qed
  have src: "''tools'' \<noteq> deletionMarker \<and> ''tools'' \<noteq> branchesDir
             \<and> [''tools'', ''run.sh''] \<noteq> excludeFile
             \<and> stat (store inWorld) (StoreLocation ?cfg @ [''tools'', ''run.sh''])
                 = Inr (File 0x1ED ''#!/bin/sh'')"
    by code_simp
  from copies [rule_format, of "''tools''" "[''run.sh'']" "File 0x1ED ''#!/bin/sh''"] src w1
  have a: "\<exists>n'. stat (work inWorldAfter) [''tools'', ''run.sh''] = Inr n'
             \<and> kept (File 0x1ED ''#!/bin/sh'') n'"
    by simp
  have reg: "''CLAUDE.md'' \<in> set names \<and> ''CLAUDE.md'' \<noteq> deletionMarker
             \<and> ''CLAUDE.md'' \<noteq> branchesDir \<and> ''.git'' \<notin> set names"
    unfolding names by code_simp
  from registers [rule_format, of "''CLAUDE.md''"] reg
  have b: "\<exists>m c. stat (work inWorldAfter) excludeFile = Inr (File m c) \<and> sublist ''CLAUDE.md'' c"
    by simp
  have none: "stat (work inWorld) [deletionMarker] = Inl ENOENT
              \<and> stat (work inWorld) [branchesDir] = Inl ENOENT
              \<and> deletionMarker \<noteq> ''.git'' \<and> branchesDir \<noteq> ''.git''"
    by code_simp
  from others [rule_format, of deletionMarker "[]"] others [rule_format, of branchesDir "[]"] none
  have c: "stat (work inWorldAfter) [deletionMarker] = Inl ENOENT
           \<and> stat (work inWorldAfter) [branchesDir] = Inl ENOENT"
    by simp
  from inWorld_syncIn a b c show ?thesis by simp
qed

subsection \<open>An exclude file that does not end with a line break\<close>

text \<open>
  Storage holds the file \<open>bar\<close>; the exclude file of the working tree lists \<open>foo\<close> and
  does not end with a line break.
\<close>

definition glueWorld :: world where
  "glueWorld =
     \<lparr>work = Some (Dir 0x1ED
         [(''.git'', Dir 0x1ED [(''info'', Dir 0x1ED [(''exclude'', File 0x1A4 ''foo'')])]),
          (''foo'', File 0x1A4 ''mine'')]),
      store = Some (Dir 0x1ED [(''bar'', File 0x1A4 ''stored'')]),
      umask = 0x12\<rparr>"

definition glueAfterIn :: world where
  "glueAfterIn =
     \<lparr>work = Some (Dir 0x1ED
         [(''.git'', Dir 0x1ED
            [(''info'', Dir 0x1ED [(''exclude'', File 0x1A4 (''foobar'' @ [CHR 0x0A]))])]),
          (''foo'', File 0x1A4 ''mine''),
          (''bar'', File 0x1A4 ''stored'')]),
      store = Some (Dir 0x1ED [(''bar'', File 0x1A4 ''stored'')]),
      umask = 0x12\<rparr>"

definition glueAfterOut :: world where
  "glueAfterOut = glueAfterIn\<lparr>store := Some (Dir 0x1ED [])\<rparr>"

text \<open>
  C1 fails on this state: sync-in copies \<open>bar\<close> into the working tree, but does not
  register it. \<^verbatim>\<open>addToExclude\<close> appends \<open>bar\<close> and a line break to the file as it is,
  which makes the one line \<open>foobar\<close>: no line of the exclude list is \<open>bar\<close>, the
  managed entries are none where \<open>foo\<close> was one before, and the sync-out that follows
  removes \<open>bar\<close> from storage as an entry that is not managed.
\<close>

theorem sync_in_glues_entry:
  "readExcludeFile (work glueWorld) = Inr [''foo'']
   \<and> syncIn (loadConfig ''main'' ''main'') glueWorld = Inr glueAfterIn
   \<and> readFile excludeFile (work glueAfterIn) = Inr (''foobar'' @ [CHR 0x0A])
   \<and> ''bar'' \<notin> set (map trimSpace (fst (scanLines (''foobar'' @ [CHR 0x0A]))))
   \<and> readExcludeFile (work glueAfterIn) = Inr []
   \<and> syncOut (loadConfig ''main'' ''main'') glueAfterIn = Inr glueAfterOut
   \<and> stat (store glueAfterOut) [''bar''] = Inl ENOENT"
  by code_simp

subsection \<open>What a successful sync-out leaves behind\<close>

text \<open>
  With \<open>items\<close> the managed entries read from the exclude file: the working tree is
  unchanged; every managed entry exists in the working tree; every node below a managed
  entry is kept in storage at the same relative path, when the first name of that path
  is itself managed (or the marker or \<open>branches\<close>) and so outlives the removal pass; and
  below the storage location nothing is left under any name that is not the deletion
  marker, not \<open>branches\<close> and not a managed entry.
\<close>

lemma syncOut_effect:
  assumes "syncOut cfg w = Inr w'"
  shows "work w' = work w
         \<and> (\<exists>items. readExcludeFile (work w) = Inr items
              \<and> (\<forall>item \<in> set items. \<exists>src. joinPath [] item = Some src \<and> exists (work w) src)
              \<and> (\<forall>item src p n x q. item \<in> set items \<and> joinPath [] item = Some src
                     \<and> stat (work w) (src @ p) = Inr n \<and> src @ p = x # q
                     \<and> (x = deletionMarker \<or> x = branchesDir \<or> x \<in> set items)
                   \<longrightarrow> (\<exists>n'. stat (store w') (StoreLocation cfg @ src @ p) = Inr n' \<and> kept n n'))
              \<and> (\<forall>x q. x \<noteq> deletionMarker \<and> x \<noteq> branchesDir \<and> x \<notin> set items
                   \<longrightarrow> stat (store w') (StoreLocation cfg @ x # q) = Inl ENOENT))"
proof -
  from assms obtain items t0 w1 names where rd: "readExcludeFile (work w) = Inr items"
    and cp: "syncOutCopy cfg items (w\<lparr>store := Some t0\<rparr>) = Inr w1"
    and rm: "syncOutRemove cfg items names w1 = Inr w'"
    by (rule syncOut_parts)
  have wk: "work w' = work w"
    using syncOutCopy_work [OF cp] syncOutRemove_work [OF rm] by simp
  have a: "\<forall>item \<in> set items. \<exists>src. joinPath [] item = Some src \<and> exists (work w) src"
    using readExcludeFile_exist [OF rd] by blast
  have b: "\<exists>n'. stat (store w') (StoreLocation cfg @ src @ p) = Inr n' \<and> kept n n'"
    if "item \<in> set items \<and> joinPath [] item = Some src
        \<and> stat (work w) (src @ p) = Inr n \<and> src @ p = x # q
        \<and> (x = deletionMarker \<or> x = branchesDir \<or> x \<in> set items)" for item src p n x q
    using syncOut_copies [OF assms rd, of item src p n x q] that by blast
  have c: "stat (store w') (StoreLocation cfg @ x # q) = Inl ENOENT"
    if "x \<noteq> deletionMarker \<and> x \<noteq> branchesDir \<and> x \<notin> set items" for x q
    using syncOut_prunes [OF assms rd, of x q] that by blast
  from wk rd a b c show ?thesis by blast
qed

lemma syncOut_effect_example:
  "syncOut (loadConfig ''main'' ''main'') outWorld = Inr outWorldAfter
   \<and> readExcludeFile (work outWorld) = Inr [''exists.md'', ''tools'']
   \<and> (\<exists>n'. stat (store outWorldAfter) [''exists.md''] = Inr n' \<and> kept (File 0x1A4 ''here'') n')
   \<and> stat (store outWorldAfter) [''deleted-file.md''] = Inl ENOENT
   \<and> stat (store outWorldAfter) [''stale'', ''.deleted_at''] = Inl ENOENT"
proof -
  let ?cfg = "loadConfig ''main'' ''main''"
  have rd: "readExcludeFile (work outWorld) = Inr [''exists.md'', ''tools'']" by code_simp
  from syncOut_effect [OF outWorld_syncOut, THEN conjunct2] obtain items where
    ex: "readExcludeFile (work outWorld) = Inr items
         \<and> (\<forall>item \<in> set items. \<exists>src. joinPath [] item = Some src \<and> exists (work outWorld) src)
         \<and> (\<forall>item src p n x q. item \<in> set items \<and> joinPath [] item = Some src
                     \<and> stat (work outWorld) (src @ p) = Inr n \<and> src @ p = x # q
                     \<and> (x = deletionMarker \<or> x = branchesDir \<or> x \<in> set items)
                   \<longrightarrow> (\<exists>n'. stat (store outWorldAfter) (StoreLocation ?cfg @ src @ p) = Inr n'
                          \<and> kept n n'))
         \<and> (\<forall>x q. x \<noteq> deletionMarker \<and> x \<noteq> branchesDir \<and> x \<notin> set items
                   \<longrightarrow> stat (store outWorldAfter) (StoreLocation ?cfg @ x # q) = Inl ENOENT)"
    ..
  note rd' = ex [THEN conjunct1]
    and copies' = ex [THEN conjunct2, THEN conjunct2, THEN conjunct1]
    and prunes' = ex [THEN conjunct2, THEN conjunct2, THEN conjunct2]
  from rd rd' have items: "items = [''exists.md'', ''tools'']" by simp
  note copies = copies' [unfolded items] and prunes = prunes' [unfolded items]
  have loc: "StoreLocation ?cfg = []" by code_simp
  have src: "''exists.md'' \<in> set [''exists.md'', ''tools'']
             \<and> joinPath [] ''exists.md'' = Some [''exists.md'']
             \<and> stat (work outWorld) ([''exists.md''] @ []) = Inr (File 0x1A4 ''here'')
             \<and> [''exists.md''] @ [] = ''exists.md'' # []"
    by code_simp
  from copies [rule_format, of "''exists.md''" "[''exists.md'']" "[]" "File 0x1A4 ''here''"
      "''exists.md''" "[]"] src loc
  have a: "\<exists>n'. stat (store outWorldAfter) [''exists.md''] = Inr n' \<and> kept (File 0x1A4 ''here'') n'"
    by simp
  have un: "''deleted-file.md'' \<noteq> deletionMarker \<and> ''deleted-file.md'' \<noteq> branchesDir
            \<and> ''deleted-file.md'' \<notin> set [''exists.md'', ''tools'']
            \<and> ''stale'' \<noteq> deletionMarker \<and> ''stale'' \<noteq> branchesDir
            \<and> ''stale'' \<notin> set [''exists.md'', ''tools'']"
    by code_simp
  from prunes [rule_format, of "''deleted-file.md''" "[]"]
    prunes [rule_format, of "''stale''" "[''.deleted_at'']"] un loc
  have b: "stat (store outWorldAfter) [''deleted-file.md''] = Inl ENOENT
           \<and> stat (store outWorldAfter) [''stale'', ''.deleted_at''] = Inl ENOENT"
    by simp
  from outWorld_syncOut rd a b show ?thesis by simp
qed

subsection \<open>Managed entries below the top level\<close>

text \<open>
  Two working trees whose exclude file lists a path with a slash: the file
  \<open>docs/n.md\<close> in the first, the directory \<open>docs/sub\<close> in the second. Both entries
  exist on disk; the storage location exists and is empty.
\<close>

definition nestedFile :: world where
  "nestedFile =
     \<lparr>work = Some (Dir 0x1ED
         [(''.git'', Dir 0x1ED
            [(''info'', Dir 0x1ED [(''exclude'', File 0x1A4 (''docs/n.md'' @ [CHR 0x0A]))])]),
          (''docs'', Dir 0x1ED [(''n.md'', File 0x1A4 ''notes'')])]),
      store = Some (Dir 0x1ED []),
      umask = 0x12\<rparr>"

definition nestedDir :: world where
  "nestedDir =
     \<lparr>work = Some (Dir 0x1ED
         [(''.git'', Dir 0x1ED
            [(''info'', Dir 0x1ED [(''exclude'', File 0x1A4 (''docs/sub'' @ [CHR 0x0A]))])]),
          (''docs'', Dir 0x1ED [(''sub'', Dir 0x1ED [(''n.md'', File 0x1A4 ''notes'')])])]),
      store = Some (Dir 0x1ED []),
      umask = 0x12\<rparr>"

definition nestedCopied :: world where
  "nestedCopied =
     nestedDir\<lparr>store := Some (Dir 0x1ED
         [(''docs'', Dir 0x1ED [(''sub'', Dir 0x1ED [(''n.md'', File 0x1A4 ''notes'')])])])\<rparr>"

text \<open>
  C2 fails on these states: a managed entry that exists on disk is not in storage after
  sync-out. For the file, \<^verbatim>\<open>copyFile\<close> creates the destination without the directory
  \<open>docs\<close> above it, and sync-out ends with that error. For the directory the copy
  succeeds, and the removal pass of the same sync-out deletes it: the pass looks for
  the storage entry \<open>docs\<close> among the managed entries, where only \<open>docs/sub\<close> is.
\<close>

theorem sync_out_nested_entry:
  "readExcludeFile (work nestedFile) = Inr [''docs/n.md'']
   \<and> exists (work nestedFile) [''docs'', ''n.md'']
   \<and> syncOut (loadConfig ''main'' ''main'') nestedFile = Inl ENOENT
   \<and> readExcludeFile (work nestedDir) = Inr [''docs/sub'']
   \<and> exists (work nestedDir) [''docs'', ''sub'']
   \<and> syncOutCopy (loadConfig ''main'' ''main'') [''docs/sub''] nestedDir = Inr nestedCopied
   \<and> exists (store nestedCopied) [''docs'', ''sub'']
   \<and> syncOutRemove (loadConfig ''main'' ''main'') [''docs/sub''] [''docs''] nestedCopied
       = Inr nestedDir
   \<and> syncOut (loadConfig ''main'' ''main'') nestedDir = Inr nestedDir
   \<and> stat (store nestedDir) [''docs'', ''sub''] = Inl ENOENT"
  by code_simp

text \<open>
  C10. Only the names directly below the roots are special. Sync-in leaves the paths
  \<open>.deleted_at\<close> and \<open>branches\<close> of the working tree as they are, and sync-out keeps what
  storage holds under these two names. A node whose path has one of the two names
  further down is ordinary content: sync-in copies it from a stored entry into the
  working tree, sync-out copies it from a managed directory into storage, and sync-out
  removes it with the top-level entry above it when that entry is not managed.
\<close>

theorem nested_names_are_ordinary:
  assumes "syncIn cfg w = Inr w'" and "syncOut cfg v = Inr v'"
  shows "(\<forall>x q. x = deletionMarker \<or> x = branchesDir
           \<longrightarrow> stat (work w') (x # q) = stat (work w) (x # q))
         \<and> (\<forall>x q n. (x = deletionMarker \<or> x = branchesDir)
             \<and> stat (store v) (StoreLocation cfg @ x # q) = Inr n
           \<longrightarrow> (\<exists>n'. stat (store v') (StoreLocation cfg @ x # q) = Inr n'))
         \<and> (\<forall>w1 item q n. initializeBranchStorage cfg w = Inr w1
             \<and> item \<noteq> deletionMarker \<and> item \<noteq> branchesDir
             \<and> (deletionMarker \<in> set q \<or> branchesDir \<in> set q)
             \<and> stat (store w1) (StoreLocation cfg @ item # q) = Inr n
           \<longrightarrow> (\<exists>n'. stat (work w') (item # q) = Inr n' \<and> kept n n'))
         \<and> (\<forall>items item q n. readExcludeFile (work v) = Inr items \<and> item \<in> set items
             \<and> joinPath [] item = Some [item]
             \<and> (deletionMarker \<in> set q \<or> branchesDir \<in> set q)
             \<and> stat (work v) (item # q) = Inr n
           \<longrightarrow> (\<exists>n'. stat (store v') (StoreLocation cfg @ item # q) = Inr n' \<and> kept n n'))
         \<and> (\<forall>items x q. readExcludeFile (work v) = Inr items
             \<and> x \<noteq> deletionMarker \<and> x \<noteq> branchesDir \<and> x \<notin> set items
           \<longrightarrow> stat (store v') (StoreLocation cfg @ x # q) = Inl ENOENT)"
proof (intro conjI allI impI)
  fix x q
  assume "x = deletionMarker \<or> x = branchesDir"
  with assms(1) show "stat (work w') (x # q) = stat (work w) (x # q)" by (rule syncIn_skips)
next
  fix x q n
  assume "(x = deletionMarker \<or> x = branchesDir)
          \<and> stat (store v) (StoreLocation cfg @ x # q) = Inr n"
  with syncOut_protects [OF assms(2), of x q n]
  show "\<exists>n'. stat (store v') (StoreLocation cfg @ x # q) = Inr n'" by blast
next
  fix w1 item q n
  assume h: "initializeBranchStorage cfg w = Inr w1
             \<and> item \<noteq> deletionMarker \<and> item \<noteq> branchesDir
             \<and> (deletionMarker \<in> set q \<or> branchesDir \<in> set q)
             \<and> stat (store w1) (StoreLocation cfg @ item # q) = Inr n"
  then have "item # q \<noteq> excludeFile"
    by (auto simp: excludeFile_def deletionMarker_def branchesDir_def)
  with syncIn_copies [OF assms(1), of w1 item q n] h
  show "\<exists>n'. stat (work w') (item # q) = Inr n' \<and> kept n n'" by blast
next
  fix items item q n
  assume h: "readExcludeFile (work v) = Inr items \<and> item \<in> set items
             \<and> joinPath [] item = Some [item]
             \<and> (deletionMarker \<in> set q \<or> branchesDir \<in> set q)
             \<and> stat (work v) (item # q) = Inr n"
  with syncOut_copies [OF assms(2), of items item "[item]" q n item q]
  show "\<exists>n'. stat (store v') (StoreLocation cfg @ item # q) = Inr n' \<and> kept n n'" by simp
next
  fix items x q
  assume "readExcludeFile (work v) = Inr items
             \<and> x \<noteq> deletionMarker \<and> x \<noteq> branchesDir \<and> x \<notin> set items"
  with syncOut_prunes [OF assms(2), of items x q]
  show "stat (store v') (StoreLocation cfg @ x # q) = Inl ENOENT" by blast
qed

theorem nested_names_are_ordinary_witness:
  "syncIn (loadConfig ''main'' ''main'') inWorld = Inr inWorldAfter
   \<and> syncOut (loadConfig ''main'' ''main'') outWorld = Inr outWorldAfter
   \<and> stat (work inWorldAfter) [deletionMarker] = stat (work inWorld) [deletionMarker]
   \<and> (\<exists>n'. stat (store outWorldAfter) [deletionMarker] = Inr n')
   \<and> (\<exists>n'. stat (work inWorldAfter) [''tools'', deletionMarker] = Inr n'
          \<and> kept (File 0x1A4 ''nested'') n')
   \<and> (\<exists>n'. stat (store outWorldAfter) [''tools'', deletionMarker] = Inr n'
          \<and> kept (File 0x1A4 ''nested'') n')
   \<and> stat (store outWorldAfter) [''stale'', deletionMarker] = Inl ENOENT"
proof -
  let ?cfg = "loadConfig ''main'' ''main''"
  note all = nested_names_are_ordinary [OF inWorld_syncIn outWorld_syncOut]
  note skips = all [THEN conjunct1]
    and protects = all [THEN conjunct2, THEN conjunct1]
    and copiesIn = all [THEN conjunct2, THEN conjunct2, THEN conjunct1]
    and copiesOut = all [THEN conjunct2, THEN conjunct2, THEN conjunct2, THEN conjunct1]
    and prunes = all [THEN conjunct2, THEN conjunct2, THEN conjunct2, THEN conjunct2]
  have loc: "StoreLocation ?cfg = []" by code_simp
  from skips [rule_format, of deletionMarker "[]"]
  have a: "stat (work inWorldAfter) [deletionMarker] = stat (work inWorld) [deletionMarker]"
    by simp
  have top: "stat (store outWorld) (StoreLocation ?cfg @ [deletionMarker]) = Inr (File 0x1A4 ''17'')"
    by code_simp
  from protects [rule_format, of deletionMarker "[]" "File 0x1A4 ''17''"] top loc
  have b: "\<exists>n'. stat (store outWorldAfter) [deletionMarker] = Inr n'" by simp
  have init: "initializeBranchStorage ?cfg inWorld = Inr inWorld
              \<and> ''tools'' \<noteq> deletionMarker \<and> ''tools'' \<noteq> branchesDir
              \<and> (deletionMarker \<in> set [deletionMarker] \<or> branchesDir \<in> set [deletionMarker])
              \<and> stat (store inWorld) (StoreLocation ?cfg @ [''tools'', deletionMarker])
                  = Inr (File 0x1A4 ''nested'')"
    by code_simp
  from copiesIn [rule_format, of inWorld "''tools''" "[deletionMarker]" "File 0x1A4 ''nested''"] init
  have c: "\<exists>n'. stat (work inWorldAfter) [''tools'', deletionMarker] = Inr n'
          \<and> kept (File 0x1A4 ''nested'') n'"
    by simp
  have out: "readExcludeFile (work outWorld) = Inr [''exists.md'', ''tools'']
             \<and> ''tools'' \<in> set [''exists.md'', ''tools'']
             \<and> joinPath [] ''tools'' = Some [''tools'']
             \<and> (deletionMarker \<in> set [deletionMarker] \<or> branchesDir \<in> set [deletionMarker])
             \<and> stat (work outWorld) [''tools'', deletionMarker] = Inr (File 0x1A4 ''nested'')"
    by code_simp
  from copiesOut [rule_format, of "[''exists.md'', ''tools'']" "''tools''" "[deletionMarker]"
      "File 0x1A4 ''nested''"] out loc
  have d: "\<exists>n'. stat (store outWorldAfter) [''tools'', deletionMarker] = Inr n'
          \<and> kept (File 0x1A4 ''nested'') n'" by simp
  have stale: "readExcludeFile (work outWorld) = Inr [''exists.md'', ''tools'']
             \<and> ''stale'' \<noteq> deletionMarker \<and> ''stale'' \<noteq> branchesDir
             \<and> ''stale'' \<notin> set [''exists.md'', ''tools'']"
    by code_simp
  from prunes [rule_format, of "[''exists.md'', ''tools'']" "''stale''" "[deletionMarker]"] stale loc
  have e: "stat (store outWorldAfter) [''stale'', deletionMarker] = Inl ENOENT" by simp
  from inWorld_syncIn outWorld_syncOut a b c d e show ?thesis by simp
qed

end
